theory Spec2Isabelle
  imports Main "HOL-Library.List_Lexorder" "HOL-Library.Char_ord" "HOL-Library.Product_Lexorder"
begin

section \<open>Systems of operator polynomials (dalgebra, diff\_polynomial\_system.py)\<close>

text \<open>
  The class \<open>RWOSystem\<close> holds a tuple of polynomials over a ring with an operator, a
  choice of main variable families and two caches. Its methods are embedded below as
  functions on an explicit store of system objects: a method that builds a system
  allocates a new object, and the two caches of an object are fields that the methods
  update in the store. Python exceptions are values of the type \<open>error\<close>.

  The polynomial and ring classes (Sage, and the ring and element modules of dalgebra)
  reach the class only through the calls it makes; those calls are the fields of the
  record \<open>ring_ops\<close>, so that every statement below holds for any implementation of
  them that obeys the few laws collected in \<open>ring_laws\<close>.
\<close>

subsection \<open>Errors and Python values\<close>

datatype error = TypeError | ValueError | IndexError | NotImplementedError | UnboundLocalError

text \<open>The values that a caller can pass where the code expects a list of integers.\<close>

datatype pyval = PInt int | PStr string | PNone | PList "pyval list" | PTuple "pyval list"

text \<open>A variable family is known by its name; \<open>str(g)\<close> is the name itself.\<close>

type_synonym gen = string

text \<open>The algebraic variable \<open>g_k\<close>: family \<open>g\<close>, operator applied \<open>k\<close> times.\<close>

type_synonym avar = "gen \<times> nat"

subsection \<open>The interface to rings and polynomials\<close>

text \<open>
  \<open>'p\<close> are the operator polynomials, \<open>'r\<close> their rings, \<open>'a\<close> the plain polynomials of
  the algebraic collapse.
\<close>

record ('p, 'r, 'a) ring_ops =
  parent_of :: "'p \<Rightarrow> 'r"
  pushout :: "'r \<Rightarrow> 'r \<Rightarrow> 'r"
  is_RWOPolynomialRing :: "'r \<Rightarrow> bool"
  is_DifferentialPolynomialRing :: "'r \<Rightarrow> bool"
  is_DifferencePolynomialRing :: "'r \<Rightarrow> bool"
  coerce :: "'r \<Rightarrow> 'p \<Rightarrow> 'p"
  gens :: "'r \<Rightarrow> gen list"
  operate :: "'p \<Rightarrow> 'p"
  poly_variables :: "'p \<Rightarrow> avar list"
  poly_is_linear :: "'p \<Rightarrow> gen list \<Rightarrow> bool"
  orders :: "'p \<Rightarrow> int list"
  sort_vars :: "'r \<Rightarrow> avar list \<Rightarrow> avar list"
  collapse :: "'r \<Rightarrow> avar list \<Rightarrow> avar list \<Rightarrow> 'p \<Rightarrow> 'a"
  alg_is_homogeneous :: "'a \<Rightarrow> bool"
  homogenize :: "'a \<Rightarrow> 'a"
  macaulay_resultant :: "'a list \<Rightarrow> error + 'a"
  alg_is_zero :: "'a \<Rightarrow> bool"
  to_parent :: "'r \<Rightarrow> 'a \<Rightarrow> 'p"

subsection \<open>System objects and the store\<close>

type_synonym ref = nat

text \<open>
  The class of an object: \<open>self.__class__\<close> is the class whose constructor the methods
  call for a derived system.
\<close>

datatype system_class = RWOSystem | DifferentialSystem | DifferenceSystem

record ('p, 'r) rwo_system =
  s_class :: system_class
  s_equations :: "'p list"
  s_parent :: "'r"
  s_variables :: "gen list"
  s_parameters :: "gen list"
  CACHED_SP1 :: "(int list \<times> ref) list"
  CACHED_RES :: "'p option"

type_synonym ('p, 'r) store = "('p, 'r) rwo_system list"

subsection \<open>Construction\<close>

text \<open>\<open>reduce(lambda p, q: pushout(p,q), parents)\<close>: fails on an empty list.\<close>

definition reduce_pushout :: "('p, 'r, 'a) ring_ops \<Rightarrow> 'r list \<Rightarrow> error + 'r" where
  "reduce_pushout E parents =
     (case parents of [] \<Rightarrow> Inl TypeError
      | p # ps \<Rightarrow> Inr (foldl (pushout E) p ps))"

text \<open>
  The loop over \<open>str_vars\<close>: the first name that is not a generator raises ValueError;
  otherwise the generator of that name is appended.
\<close>

fun check_variables :: "gen list \<Rightarrow> gen list \<Rightarrow> error + gen list" where
  "check_variables gs [] = Inr []"
| "check_variables gs (var # vs) =
     (if var \<notin> set gs then Inl ValueError
      else (case check_variables gs vs of Inl e \<Rightarrow> Inl e
            | Inr dvars \<Rightarrow> Inr (var # dvars)))"

text \<open>\<open>RWOSystem.__init__\<close>; the class is recorded for the methods that read it.\<close>

definition init_base :: "('p, 'r, 'a) ring_ops \<Rightarrow> system_class \<Rightarrow> 'p list \<Rightarrow> 'r option
    \<Rightarrow> gen list option \<Rightarrow> error + ('p, 'r) rwo_system" where
  "init_base E cls equations parent variables =
     (let parents = map (parent_of E) equations;
          parents = (case parent of None \<Rightarrow> parents | Some P \<Rightarrow> P # parents)
      in case reduce_pushout E parents of Inl e \<Rightarrow> Inl e
         | Inr pushed \<Rightarrow>
           if \<not> is_RWOPolynomialRing E pushed then Inl TypeError
           else
             (case (case variables of None \<Rightarrow> Inr (gens E pushed)
                    | Some vs \<Rightarrow> check_variables (gens E pushed) vs) of
                Inl e \<Rightarrow> Inl e
              | Inr dvars \<Rightarrow>
                  Inr \<lparr> s_class = cls,
                        s_equations = map (coerce E pushed) equations,
                        s_parent = pushed,
                        s_variables = dvars,
                        s_parameters = filter (\<lambda>el. el \<notin> set dvars) (gens E pushed),
                        CACHED_SP1 = [],
                        CACHED_RES = None \<rparr>))"

text \<open>
  The test that the constructors of \<open>DifferentialSystem\<close> and \<open>DifferenceSystem\<close> add
  after \<open>super().__init__\<close>.
\<close>

definition class_accepts :: "('p, 'r, 'a) ring_ops \<Rightarrow> system_class \<Rightarrow> 'r \<Rightarrow> bool" where
  "class_accepts E cls r =
     (case cls of RWOSystem \<Rightarrow> True
      | DifferentialSystem \<Rightarrow> is_DifferentialPolynomialRing E r
      | DifferenceSystem \<Rightarrow> is_DifferencePolynomialRing E r)"

definition init :: "('p, 'r, 'a) ring_ops \<Rightarrow> system_class \<Rightarrow> 'p list \<Rightarrow> 'r option
    \<Rightarrow> gen list option \<Rightarrow> error + ('p, 'r) rwo_system" where
  "init E cls equations parent variables =
     (case init_base E cls equations parent variables of
        Inl e \<Rightarrow> Inl e
      | Inr s \<Rightarrow> if \<not> class_accepts E cls (s_parent s) then Inl TypeError else Inr s)"

text \<open>\<open>self.__class__(equations, parent, variables)\<close>: a new object in the store.\<close>

definition new_system :: "('p, 'r, 'a) ring_ops \<Rightarrow> ('p, 'r) store \<Rightarrow> system_class
    \<Rightarrow> 'p list \<Rightarrow> 'r option \<Rightarrow> gen list option \<Rightarrow> (error + ref) \<times> ('p, 'r) store" where
  "new_system E h cls equations parent variables =
     (case init E cls equations parent variables of
        Inl e \<Rightarrow> (Inl e, h)
      | Inr s \<Rightarrow> (Inr (length h), h @ [s]))"

definition size_sys :: "('p, 'r) rwo_system \<Rightarrow> nat" where
  "size_sys s = length (s_equations s)"

subsection \<open>Equations by index\<close>

text \<open>
  An index is a plain integer, a pair \<open>(i, n)\<close>, or a value that is neither (a string,
  \<open>None\<close>, a sequence of another length), which tuple indexing rejects.
\<close>

datatype index = Plain int | Derived int int | BadIndex

text \<open>
  Reading \<open>self._equations[i]\<close>: an index from \<open>-len\<close> up to \<open>-1\<close> is taken from the
  end of the tuple, and one outside \<open>-len .. len-1\<close> raises.
\<close>

definition py_getitem :: "'x list \<Rightarrow> int \<Rightarrow> error + 'x" where
  "py_getitem xs i =
     (if 0 \<le> i \<and> i < int (length xs) then Inr (xs ! nat i)
      else if i < 0 \<and> - int (length xs) \<le> i then Inr (xs ! nat (int (length xs) + i))
      else Inl IndexError)"

text \<open>
  Modelled from the spec: \<open>RWOPolynomial.operation(times)\<close>, whose module is not among the
  sources. The spec has "apply-operator(p, times)" and the pair \<open>(i, k)\<close> as "apply the
  operator to \<open>equations[i]\<close> exactly \<open>k\<close> times"; the method \<open>DiffPolynomial.derivative\<close>
  of the predecessor package has the same shape (ValueError below zero, \<open>self\<close> at zero,
  one more application of the ring's operator at each step).
\<close>

definition operation :: "('p, 'r, 'a) ring_ops \<Rightarrow> 'p \<Rightarrow> int \<Rightarrow> error + 'p" where
  "operation E p k =
     (if k < 0 then Inl ValueError else Inr ((operate E ^^ nat k) p))"

fun equation :: "('p, 'r, 'a) ring_ops \<Rightarrow> ('p, 'r) rwo_system \<Rightarrow> index \<Rightarrow> error + 'p" where
  "equation E s (Derived i n) =
     (case py_getitem (s_equations s) i of Inl e \<Rightarrow> Inl e
      | Inr p \<Rightarrow> operation E p n)"
| "equation E s (Plain i) = py_getitem (s_equations s) i"
| "equation E s BadIndex = Inl TypeError"

text \<open>The list comprehension \<open>[f(x) for x in xs]\<close> with a body that can raise.\<close>

fun map_err :: "('x \<Rightarrow> error + 'y) \<Rightarrow> 'x list \<Rightarrow> error + 'y list" where
  "map_err f [] = Inr []"
| "map_err f (x # xs) =
     (case f x of Inl e \<Rightarrow> Inl e
      | Inr y \<Rightarrow> (case map_err f xs of Inl e \<Rightarrow> Inl e | Inr ys \<Rightarrow> Inr (y # ys)))"

text \<open>\<open>range(*slice(start, stop, step).indices(n))\<close> as Python computes it.\<close>

definition py_range :: "int \<Rightarrow> int \<Rightarrow> int \<Rightarrow> int list" where
  "py_range start stop step =
     (if step > 0 then map (\<lambda>k. start + int k * step) [0 ..< nat ((stop - start + step - 1) div step)]
      else map (\<lambda>k. start + int k * step) [0 ..< nat ((start - stop - step - 1) div (- step))])"

definition slice_indices :: "int option \<Rightarrow> int option \<Rightarrow> int option \<Rightarrow> nat \<Rightarrow> error + int list" where
  "slice_indices start stop step len =
     (let n = int len; st = (case step of None \<Rightarrow> 1 | Some k \<Rightarrow> k)
      in if st = 0 then Inl ValueError
         else
           let lower = (if st < 0 then - 1 else 0);
               upper = (if st < 0 then n - 1 else n);
               a = (case start of None \<Rightarrow> (if st < 0 then upper else lower)
                    | Some v \<Rightarrow> if v < 0 then max (v + n) lower else min v upper);
               b = (case stop of None \<Rightarrow> (if st < 0 then lower else upper)
                    | Some v \<Rightarrow> if v < 0 then max (v + n) lower else min v upper)
           in Inr (py_range a b st))"

text \<open>
  The argument of \<open>equations\<close>: \<open>None\<close>, a slice, an integer, a list or tuple of
  indices, or a value that is none of these (a string, say).
\<close>

datatype indices = AllEquations | Slice "int option" "int option" "int option"
  | One int | Many "index list" | Other

fun equations :: "('p, 'r, 'a) ring_ops \<Rightarrow> ('p, 'r) rwo_system \<Rightarrow> indices \<Rightarrow> error + 'p list" where
  "equations E s AllEquations = Inr (s_equations s)"
| "equations E s (Slice a b c) =
     (case slice_indices a b c (size_sys s) of Inl e \<Rightarrow> Inl e
      | Inr js \<Rightarrow> map_err (equation E s) (map Plain js))"
| "equations E s (One i) = map_err (equation E s) [Plain i]"
| "equations E s (Many js) = map_err (equation E s) js"
| "equations E s Other = map_err (equation E s) [BadIndex]"

subsection \<open>Derived systems\<close>

definition subsystem :: "('p, 'r, 'a) ring_ops \<Rightarrow> ('p, 'r) store \<Rightarrow> ref \<Rightarrow> indices
    \<Rightarrow> gen list option \<Rightarrow> (error + ref) \<times> ('p, 'r) store" where
  "subsystem E h self indices variables =
     (let s = h ! self;
          variables = (case variables of None \<Rightarrow> s_variables s | Some vs \<Rightarrow> vs)
      in case equations E s indices of Inl e \<Rightarrow> (Inl e, h)
         | Inr eqs \<Rightarrow> new_system E h (s_class s) eqs (Some (s_parent s)) (Some variables))"

text \<open>The argument of \<open>change_variables\<close>: a list or tuple of families, or one family.\<close>

datatype variables_arg = Families "gen list" | Family gen

definition change_variables :: "('p, 'r, 'a) ring_ops \<Rightarrow> ('p, 'r) store \<Rightarrow> ref
    \<Rightarrow> variables_arg \<Rightarrow> (error + ref) \<times> ('p, 'r) store" where
  "change_variables E h self variables =
     (let variables = (case variables of Families vs \<Rightarrow> vs | Family v \<Rightarrow> [v])
      in subsystem E h self AllEquations (Some variables))"

definition getitem :: "('p, 'r, 'a) ring_ops \<Rightarrow> ('p, 'r) store \<Rightarrow> ref \<Rightarrow> indices
    \<Rightarrow> (error + ref) \<times> ('p, 'r) store" where
  "getitem E h self index =
     (let s = h ! self
      in case equations E s index of Inl e \<Rightarrow> (Inl e, h)
         | Inr eqs \<Rightarrow>
             new_system E h (s_class s) eqs (Some (s_parent s)) (Some (s_variables s)))"

subsection \<open>The extension by the operator (condition SP1)\<close>

text \<open>\<open>not el in ZZ or el < 0\<close>: true of every value that is not a non-negative integer.\<close>

fun bad_entry :: "pyval \<Rightarrow> bool" where
  "bad_entry (PInt n) = (n < 0)"
| "bad_entry _ = True"

fun the_int :: "pyval \<Rightarrow> int" where
  "the_int (PInt n) = n"
| "the_int _ = 0"

text \<open>
  \<open>sum([[self.equation((i,k)) for k in range(Ls[i]+1)] for i in range(self.size())], [])\<close>:
  \<open>Ls[i]\<close> is read for each equation in turn, and raises IndexError when \<open>Ls\<close> is too
  short; entries of \<open>Ls\<close> beyond the number of equations are never read.
\<close>

definition new_equations :: "('p, 'r, 'a) ring_ops \<Rightarrow> ('p, 'r) rwo_system \<Rightarrow> int list
    \<Rightarrow> error + 'p list" where
  "new_equations E s Ls =
     (case map_err (\<lambda>i. case py_getitem Ls (int i) of Inl e \<Rightarrow> Inl e
                        | Inr L \<Rightarrow> map_err (\<lambda>k. equation E s (Derived (int i) (int k)))
                                     [0 ..< nat (L + 1)])
             [0 ..< size_sys s] of
        Inl e \<Rightarrow> Inl e
      | Inr rows \<Rightarrow> Inr (concat rows))"

definition extend_checked :: "('p, 'r, 'a) ring_ops \<Rightarrow> ('p, 'r) store \<Rightarrow> ref \<Rightarrow> pyval list
    \<Rightarrow> (error + ref) \<times> ('p, 'r) store" where
  "extend_checked E h self vs =
     (if list_ex bad_entry vs then (Inl ValueError, h)
      else
        let Ls = map the_int vs; s = h ! self
        in case map_of (CACHED_SP1 s) Ls of
             Some r \<Rightarrow> (Inr r, h)
           | None \<Rightarrow>
               (case new_equations E s Ls of
                  Inl e \<Rightarrow> (Inl e, h)
                | Inr eqs \<Rightarrow>
                    (case new_system E h (s_class s) eqs (Some (s_parent s))
                            (Some (s_variables s)) of
                       (Inl e, h') \<Rightarrow> (Inl e, h')
                     | (Inr r, h') \<Rightarrow>
                         (Inr r, h'[self := (h' ! self)
                                     \<lparr>CACHED_SP1 := (Ls, r) # CACHED_SP1 (h' ! self)\<rparr>]))))"

fun extend_by_operation :: "('p, 'r, 'a) ring_ops \<Rightarrow> ('p, 'r) store \<Rightarrow> ref \<Rightarrow> pyval
    \<Rightarrow> (error + ref) \<times> ('p, 'r) store" where
  "extend_by_operation E h self (PList vs) = extend_checked E h self vs"
| "extend_by_operation E h self (PTuple vs) = extend_checked E h self vs"
| "extend_by_operation E h self _ = (Inl TypeError, h)"

subsection \<open>The structural classifier\<close>

text \<open>
  \<open>el in g\<close> compares the family name of the variable with the name of the generator;
  \<open>list(set(...))\<close> removes repetitions, and the order it leaves is replaced by the sort.
\<close>

definition algebraic_variables :: "('p, 'r, 'a) ring_ops \<Rightarrow> ('p, 'r) rwo_system \<Rightarrow> avar list" where
  "algebraic_variables E s =
     (let all_vars = remdups (concat (map (poly_variables E) (s_equations s)));
          filtered = filter (\<lambda>el. \<exists>g \<in> set (s_variables s). fst el = g) all_vars
      in sort_vars E (s_parent s) filtered)"

text \<open>\<open>[max(p[i],q[i]) for i in range(len(p))]\<close>: a shorter \<open>q\<close> raises IndexError.\<close>

definition max_lists :: "int list \<Rightarrow> int list \<Rightarrow> error + int list" where
  "max_lists p q =
     (if length q < length p then Inl IndexError
      else Inr (map (\<lambda>i. max (p ! i) (q ! i)) [0 ..< length p]))"

fun reduce_max :: "int list \<Rightarrow> int list list \<Rightarrow> error + int list" where
  "reduce_max p [] = Inr p"
| "reduce_max p (q # qs) =
     (case max_lists p q of Inl e \<Rightarrow> Inl e | Inr m \<Rightarrow> reduce_max m qs)"

text \<open>
  The generators \<open>g_0 .. g_max\<close> of the families selected by \<open>keep\<close>, in the order of
  the loop over \<open>gens\<close>.
\<close>

definition family_vars :: "gen list \<Rightarrow> int list \<Rightarrow> (gen \<Rightarrow> bool) \<Rightarrow> avar list" where
  "family_vars gs max_orders keep =
     concat (map (\<lambda>i. if keep (gs ! i)
                      then map (\<lambda>j. (gs ! i, j)) [0 ..< nat (max_orders ! i + 1)]
                      else [])
                 [0 ..< length gs])"

definition algebraic_equations :: "('p, 'r, 'a) ring_ops \<Rightarrow> ('p, 'r) rwo_system
    \<Rightarrow> error + 'a list" where
  "algebraic_equations E s =
     (case map (orders E) (s_equations s) of
        [] \<Rightarrow> Inl TypeError
      | p # qs \<Rightarrow>
          (case reduce_max p qs of Inl e \<Rightarrow> Inl e
           | Inr max_orders \<Rightarrow>
               let gs = gens E (s_parent s)
               in if length max_orders < length gs then Inl IndexError
                  else
                    let variables = sort_vars E (s_parent s)
                          (family_vars gs max_orders (\<lambda>g. g \<in> set (s_variables s)));
                        parameters = sort_vars E (s_parent s)
                          (family_vars gs max_orders (\<lambda>g. g \<notin> set (s_variables s)))
                    in Inr (map (collapse E (s_parent s) parameters variables)
                              (s_equations s))))"

definition is_homogeneous :: "('p, 'r, 'a) ring_ops \<Rightarrow> ('p, 'r) rwo_system \<Rightarrow> error + bool" where
  "is_homogeneous E s =
     (case algebraic_equations E s of Inl e \<Rightarrow> Inl e
      | Inr aes \<Rightarrow> Inr (list_all (alg_is_homogeneous E) aes))"

definition is_linear :: "('p, 'r, 'a) ring_ops \<Rightarrow> ('p, 'r) rwo_system \<Rightarrow> gen list option
    \<Rightarrow> bool" where
  "is_linear E s variables =
     (let variables = (case variables of None \<Rightarrow> s_variables s | Some vs \<Rightarrow> vs)
      in list_all (\<lambda>equ. poly_is_linear E equ variables) (s_equations s))"

definition is_sp2 :: "('p, 'r, 'a) ring_ops \<Rightarrow> ('p, 'r) rwo_system \<Rightarrow> error + bool" where
  "is_sp2 E s =
     (case is_homogeneous E s of Inl e \<Rightarrow> Inl e
      | Inr hom \<Rightarrow>
          if hom then Inr (int (length (algebraic_variables E s)) = int (size_sys s))
          else Inr (int (length (algebraic_variables E s)) = int (size_sys s) - 1))"

subsection \<open>The extension search\<close>

text \<open>
  Sage's \<open>Compositions(n, length=k, max_part=m)\<close>: the lists of \<open>k\<close> positive integers,
  none above \<open>m\<close>, that sum to \<open>n\<close>, the lexicographically largest first.
\<close>

fun compositions :: "nat \<Rightarrow> nat \<Rightarrow> nat \<Rightarrow> nat list list" where
  "compositions 0 n m = (if n = 0 then [[]] else [])"
| "compositions (Suc k) n m =
     concat (map (\<lambda>a. map ((#) a) (compositions k (n - a) m)) (rev [1 ..< Suc (min m n)]))"

definition gen_cartesian :: "nat \<Rightarrow> int \<Rightarrow> int list list" where
  "gen_cartesian sz bound =
     concat (map (\<lambda>i. map (map (\<lambda>el. int el - 1)) (compositions sz (i + sz) (nat bound)))
                 [0 ..< nat (bound * int sz)])"

fun search_extension :: "('p, 'r, 'a) ring_ops \<Rightarrow> ('p, 'r) store \<Rightarrow> ref \<Rightarrow> int list list
    \<Rightarrow> (error + int list) \<times> ('p, 'r) store" where
  "search_extension E h self [] = (Inl TypeError, h)"
| "search_extension E h self (L # Ls) =
     (case extend_by_operation E h self (PTuple (map PInt L)) of
        (Inl e, h') \<Rightarrow> (Inl e, h')
      | (Inr r, h') \<Rightarrow>
          (case is_sp2 E (h' ! r) of
             Inl e \<Rightarrow> (Inl e, h')
           | Inr ok \<Rightarrow> if ok then (Inr L, h') else search_extension E h' self Ls))"

definition get_extension :: "('p, 'r, 'a) ring_ops \<Rightarrow> ('p, 'r) store \<Rightarrow> ref \<Rightarrow> int
    \<Rightarrow> (error + int list) \<times> ('p, 'r) store" where
  "get_extension E h self bound =
     (if bound < 0 then (Inl ValueError, h)
      else search_extension E h self (gen_cartesian (size_sys (h ! self)) bound))"

text \<open>
  The value of \<open>self.extend_by_operation(L).is_sp2()\<close> in the store \<open>h\<close>, the test
  that the search applies to a candidate \<open>L\<close>.
\<close>

definition sp2_after :: "('p, 'r, 'a) ring_ops \<Rightarrow> ('p, 'r) store \<Rightarrow> ref \<Rightarrow> int list
    \<Rightarrow> error + bool" where
  "sp2_after E h self L =
     (case extend_by_operation E h self (PTuple (map PInt L)) of
        (Inl e, h') \<Rightarrow> Inl e
      | (Inr r, h') \<Rightarrow> is_sp2 E (h' ! r))"

subsection \<open>The resultant\<close>

definition decide_resultant_algorithm :: "('p, 'r, 'a) ring_ops \<Rightarrow> ('p, 'r) rwo_system \<Rightarrow> string" where
  "decide_resultant_algorithm E s =
     (if is_linear E s None then ''macaulay'' else ''iterative'')"

definition dixon :: "('p, 'r, 'a) ring_ops \<Rightarrow> ('p, 'r) store \<Rightarrow> ref \<Rightarrow> int
    \<Rightarrow> (error + 'a) \<times> ('p, 'r) store" where
  "dixon E h self bound = (Inl NotImplementedError, h)"

definition macaulay :: "('p, 'r, 'a) ring_ops \<Rightarrow> ('p, 'r) store \<Rightarrow> ref \<Rightarrow> int
    \<Rightarrow> (error + 'a) \<times> ('p, 'r) store" where
  "macaulay E h self bound =
     (case get_extension E h self bound of
        (Inl e, h1) \<Rightarrow> (Inl e, h1)
      | (Inr L, h1) \<Rightarrow>
          (case extend_by_operation E h1 self (PTuple (map PInt L)) of
             (Inl e, h2) \<Rightarrow> (Inl e, h2)
           | (Inr r, h2) \<Rightarrow>
               (case algebraic_equations E (h2 ! r) of
                  Inl e \<Rightarrow> (Inl e, h2)
                | Inr aes \<Rightarrow>
                    (case map (homogenize E) aes of
                       [] \<Rightarrow> (Inl IndexError, h2)
                     | equs \<Rightarrow> (macaulay_resultant E equs, h2)))))"

text \<open>
  The iterative eliminator \<open>__iterative(bound, alg_res)\<close> is a parameter of
  \<open>diff_resultant\<close>: a procedure on the store that returns a polynomial or raises. The
  statements about the resultant below hold for every such procedure.

  In \<open>diff_resultant\<close> the decorator \<open>verbose\<close> and the calls of the logger are left
  out. The chain \<open>if dixon / elif macaulay / elif iterative\<close> has no \<open>else\<close>: a fourth
  name would leave \<open>output\<close> unbound, which the test of \<open>alg_res\<close> above it excludes.
\<close>

type_synonym ('p, 'r, 'a) eliminator =
  "('p, 'r) store \<Rightarrow> ref \<Rightarrow> int \<Rightarrow> string \<Rightarrow> (error + 'a) \<times> ('p, 'r) store"

definition to_use_alg :: "('p, 'r, 'a) ring_ops \<Rightarrow> ('p, 'r) rwo_system \<Rightarrow> string \<Rightarrow> string" where
  "to_use_alg E s alg_res =
     (if alg_res = ''auto'' then decide_resultant_algorithm E s else alg_res)"

definition compute_resultant :: "('p, 'r, 'a) ring_ops \<Rightarrow> ('p, 'r, 'a) eliminator
    \<Rightarrow> ('p, 'r) store \<Rightarrow> ref \<Rightarrow> int \<Rightarrow> string \<Rightarrow> string \<Rightarrow> (error + 'a) \<times> ('p, 'r) store" where
  "compute_resultant E iterative h self bound_L alg alg_res =
     (if alg = ''dixon'' then dixon E h self bound_L
      else if alg = ''macaulay'' then macaulay E h self bound_L
      else if alg = ''iterative'' then iterative h self bound_L alg_res
      else (Inl UnboundLocalError, h))"

definition diff_resultant :: "('p, 'r, 'a) ring_ops \<Rightarrow> ('p, 'r, 'a) eliminator
    \<Rightarrow> ('p, 'r) store \<Rightarrow> ref \<Rightarrow> int \<Rightarrow> string \<Rightarrow> (error + 'p) \<times> ('p, 'r) store" where
  "diff_resultant E iterative h self bound_L alg_res =
     (case CACHED_RES (h ! self) of
        Some res \<Rightarrow> (Inr res, h)
      | None \<Rightarrow>
          if alg_res \<notin> set [''auto'', ''iterative'', ''dixon'', ''macaulay''] then (Inl ValueError, h)
          else
            (case compute_resultant E iterative h self bound_L
                    (to_use_alg E (h ! self) alg_res) alg_res of
               (Inl e, h') \<Rightarrow> (Inl e, h')
             | (Inr output, h') \<Rightarrow>
                 if alg_is_zero E output then (Inl ValueError, h')
                 else
                   let res = to_parent E (s_parent (h' ! self)) output
                   in (Inr res, h'[self := (h' ! self)\<lparr>CACHED_RES := Some res\<rparr>])))"

subsection \<open>What the proofs ask of the rings, and of a store\<close>

text \<open>
  The laws of the interface: the pushout of a ring with itself is that ring, conversion
  into a ring lands in it and leaves its own elements alone, and the operator stays in
  the ring.
\<close>

definition ring_laws :: "('p, 'r, 'a) ring_ops \<Rightarrow> bool" where
  "ring_laws E \<longleftrightarrow>
     (\<forall>r. pushout E r r = r) \<and>
     (\<forall>r p. parent_of E (coerce E r p) = r) \<and>
     (\<forall>p. coerce E (parent_of E p) p = p) \<and>
     (\<forall>p. parent_of E (operate E p) = parent_of E p)"

text \<open>What the constructor establishes for every system object.\<close>

definition sys_ok :: "('p, 'r, 'a) ring_ops \<Rightarrow> ('p, 'r) rwo_system \<Rightarrow> bool" where
  "sys_ok E s \<longleftrightarrow>
     is_RWOPolynomialRing E (s_parent s) \<and>
     class_accepts E (s_class s) (s_parent s) \<and>
     list_all (\<lambda>e. parent_of E e = s_parent s) (s_equations s) \<and>
     list_all (\<lambda>v. v \<in> set (gens E (s_parent s))) (s_variables s) \<and>
     s_parameters s = filter (\<lambda>el. el \<notin> set (s_variables s)) (gens E (s_parent s))"

text \<open>
  What \<open>extend_by_operation\<close>, the only writer of the cache, keeps true of it: each
  entry refers to another object of the store, which holds the extension for its key.
\<close>

definition cache_ok :: "('p, 'r, 'a) ring_ops \<Rightarrow> ('p, 'r) store \<Rightarrow> ref \<Rightarrow> bool" where
  "cache_ok E h self \<longleftrightarrow>
     self < length h \<and> sys_ok E (h ! self) \<and>
     list_all (\<lambda>(Ls, r). r < length h \<and> r \<noteq> self \<and>
                 new_equations E (h ! self) Ls = Inr (s_equations (h ! r)) \<and>
                 s_parent (h ! r) = s_parent (h ! self) \<and>
                 s_variables (h ! r) = s_variables (h ! self))
              (CACHED_SP1 (h ! self))"

text \<open>The eliminator may allocate and fill caches; it does not shrink the store.\<close>

definition eliminator_ok :: "('p, 'r, 'a) eliminator \<Rightarrow> bool" where
  "eliminator_ok iterative \<longleftrightarrow>
     (\<forall>h self bound alg. length h \<le> length (snd (iterative h self bound alg)))"

subsection \<open>An implementation of the interface: differential polynomials over \<open>\<int>[x]\<close>\<close>

text \<open>
  Modelled from the spec: the operator polynomials that the system class works on (the
  ring and element modules of dalgebra and Sage's polynomials are not among the
  sources). A polynomial is a sorted list of terms; a term is a monomial in the
  variables \<open>g_k\<close> with a coefficient in \<open>\<int>[x]\<close>, the list of its coefficients from
  degree zero; the operator is the derivation that extends \<open>d/dx\<close> by
  \<open>g_k \<mapsto> g_(k+1)\<close>, as the glossary of the spec has it. The algebraic resultant is given
  for two linear forms in two variables, where it is a determinant.
\<close>

type_synonym coef = "int list"
type_synonym mono = "(avar \<times> nat) list"
type_synonym terms = "(mono \<times> coef) list"
type_synonym dpoly = "gen list \<times> terms"
type_synonym apoly = "avar list \<times> terms"

definition cnorm :: "coef \<Rightarrow> coef" where
  "cnorm c = rev (dropWhile (\<lambda>a. a = 0) (rev c))"

fun cadd_raw :: "coef \<Rightarrow> coef \<Rightarrow> coef" where
  "cadd_raw [] ys = ys"
| "cadd_raw xs [] = xs"
| "cadd_raw (x # xs) (y # ys) = (x + y) # cadd_raw xs ys"

definition cadd :: "coef \<Rightarrow> coef \<Rightarrow> coef" where
  "cadd a b = cnorm (cadd_raw a b)"

definition cscale :: "int \<Rightarrow> coef \<Rightarrow> coef" where
  "cscale k c = cnorm (map (\<lambda>a. k * a) c)"

definition cderiv :: "coef \<Rightarrow> coef" where
  "cderiv c = cnorm (map (\<lambda>(i, a). int i * a) (tl (enumerate 0 c)))"

fun cmul :: "coef \<Rightarrow> coef \<Rightarrow> coef" where
  "cmul [] b = []"
| "cmul (a # as) b = cadd (cscale a b) (0 # cmul as b)"

fun tadd :: "mono \<Rightarrow> coef \<Rightarrow> terms \<Rightarrow> terms" where
  "tadd m c [] = (if c = [] then [] else [(m, c)])"
| "tadd m c ((m', c') # ts) =
     (if m = m' then (let d = cadd c c' in if d = [] then ts else (m, d) # ts)
      else if m < m' then (if c = [] then (m', c') # ts else (m, c) # (m', c') # ts)
      else (m', c') # tadd m c ts)"

fun vmul :: "avar \<Rightarrow> mono \<Rightarrow> mono" where
  "vmul v [] = [(v, 1)]"
| "vmul v ((w, e) # m) =
     (if v = w then (w, Suc e) # m
      else if v < w then (v, 1) # (w, e) # m
      else (w, e) # vmul v m)"

fun dmono :: "mono \<Rightarrow> (int \<times> mono) list" where
  "dmono [] = []"
| "dmono ((v, e) # m) =
     (int e, vmul (fst v, Suc (snd v)) ((vmul v ^^ (e - 1)) m))
       # map (\<lambda>(k, m'). (k, (vmul v ^^ e) m')) (dmono m)"

definition deriv_terms :: "terms \<Rightarrow> terms" where
  "deriv_terms ts =
     fold (\<lambda>(m, c) acc. fold (\<lambda>(k, m') a. tadd m' (cscale k c) a) (dmono m)
                            (tadd m (cderiv c) acc)) ts []"

definition mono_degree :: "(avar \<Rightarrow> bool) \<Rightarrow> mono \<Rightarrow> nat" where
  "mono_degree P m = sum_list (map snd (filter (\<lambda>(v, e). P v) m))"

definition terms_variables :: "terms \<Rightarrow> avar list" where
  "terms_variables ts = remdups (concat (map (\<lambda>(m, c). map fst m) ts))"

definition family_order :: "terms \<Rightarrow> gen \<Rightarrow> int" where
  "family_order ts g =
     fold max (map (\<lambda>v. int (snd v)) (filter (\<lambda>v. fst v = g) (terms_variables ts))) (- 1)"

definition homogenize_terms :: "avar list \<Rightarrow> terms \<Rightarrow> terms" where
  "homogenize_terms vs ts =
     (let d = fold max (map (\<lambda>(m, c). mono_degree (\<lambda>v. v \<in> set vs) m) ts) 0
      in fold (\<lambda>(m, c) acc.
                 tadd ((vmul (''h'', 0) ^^ (d - mono_degree (\<lambda>v. v \<in> set vs) m)) m) c acc) ts [])"

definition coeff_of :: "terms \<Rightarrow> mono \<Rightarrow> coef" where
  "coeff_of ts m = (case map_of ts m of None \<Rightarrow> [] | Some c \<Rightarrow> c)"

fun linear_resultant :: "apoly list \<Rightarrow> error + apoly" where
  "linear_resultant [([v, w], f), (vs, g)] =
     (if list_all (\<lambda>(m, c). m = [(v, 1)] \<or> m = [(w, 1)]) (f @ g)
      then Inr ([v, w], tadd [] (cadd (cmul (coeff_of f [(v, 1)]) (coeff_of g [(w, 1)]))
                                     (cscale (- 1) (cmul (coeff_of f [(w, 1)]) (coeff_of g [(v, 1)])))) [])
      else Inl TypeError)"
| "linear_resultant _ = Inl TypeError"

definition E0 :: "(dpoly, gen list, apoly) ring_ops" where
  "E0 = \<lparr> parent_of = fst,
          pushout = (\<lambda>a b. a @ filter (\<lambda>g. g \<notin> set a) b),
          is_RWOPolynomialRing = (\<lambda>r. r \<noteq> []),
          is_DifferentialPolynomialRing = (\<lambda>r. r \<noteq> []),
          is_DifferencePolynomialRing = (\<lambda>r. False),
          coerce = (\<lambda>r p. (r, snd p)),
          gens = (\<lambda>r. r),
          operate = (\<lambda>p. (fst p, deriv_terms (snd p))),
          poly_variables = (\<lambda>p. terms_variables (snd p)),
          poly_is_linear = (\<lambda>p vs. list_all (\<lambda>(m, c). mono_degree (\<lambda>v. fst v \<in> set vs) m \<le> 1) (snd p)),
          orders = (\<lambda>p. map (family_order (snd p)) (fst p)),
          sort_vars = (\<lambda>r. sort_key (\<lambda>(g, k). (length (dropWhile (\<lambda>x. x \<noteq> g) r), k))),
          collapse = (\<lambda>r ps vs p. (vs, snd p)),
          alg_is_homogeneous = (\<lambda>a. case map (\<lambda>(m, c). mono_degree (\<lambda>v. v \<in> set (fst a)) m) (snd a) of
                                   [] \<Rightarrow> True | d # ds \<Rightarrow> list_all (\<lambda>x. x = d) ds),
          homogenize = (\<lambda>a. (fst a @ [(''h'', 0)], homogenize_terms (fst a) (snd a))),
          macaulay_resultant = linear_resultant,
          alg_is_zero = (\<lambda>a. snd a = []),
          to_parent = (\<lambda>r a. (r, snd a)) \<rparr>"


text \<open>An eliminator that gives up at once ("not enough equations").\<close>

definition no_elimination :: "(dpoly, gen list, apoly) eliminator" where
  "no_elimination h self bound alg = (Inl ValueError, h)"

definition poly :: "gen list \<Rightarrow> (mono \<times> coef) list \<Rightarrow> dpoly" where
  "poly r ts = (r, fold (\<lambda>(m, c) acc. tadd m c acc) ts [])"

text \<open>The system \<open>{u_1 - u_0}\<close> over the family \<open>u\<close>.\<close>

definition sys_u :: "(dpoly, gen list) rwo_system" where
  "sys_u = \<lparr> s_class = DifferentialSystem,
      s_equations = [poly [''u''] [([((''u'', 1), 1)], [1]), ([((''u'', 0), 1)], [- 1])]],
             s_parent = [''u''], s_variables = [''u''], s_parameters = [],
             CACHED_SP1 = [], CACHED_RES = None \<rparr>"

text \<open>
  The system \<open>{x*u_0 + x^2*u_2 - (1-x)*v_0, v_1 - v_2 + u_1}\<close> over the families
  \<open>u, v\<close> with \<open>variables = [u]\<close>.
\<close>

definition sys_uv :: "(dpoly, gen list) rwo_system" where
  "sys_uv = \<lparr> s_class = DifferentialSystem, s_equations =
                [poly [''u'', ''v''] [([((''u'', 0), 1)], [0, 1]), ([((''u'', 2), 1)], [0, 0, 1]),
                                      ([((''v'', 0), 1)], [- 1, 1])],
                 poly [''u'', ''v''] [([((''v'', 1), 1)], [1]), ([((''v'', 2), 1)], [- 1]),
                                      ([((''u'', 1), 1)], [1])]],
              s_parent = [''u'', ''v''], s_variables = [''u''], s_parameters = [''v''],
              CACHED_SP1 = [], CACHED_RES = None \<rparr>"

text \<open>The system \<open>{u_0 - x, u_0 - 1}\<close> over the family \<open>u\<close>.\<close>

definition sys_lin :: "(dpoly, gen list) rwo_system" where
  "sys_lin = \<lparr> s_class = DifferentialSystem,
      s_equations = [poly [''u''] [([((''u'', 0), 1)], [1]), ([], [0, - 1])],
                               poly [''u''] [([((''u'', 0), 1)], [1]), ([], [- 1])]],
               s_parent = [''u''], s_variables = [''u''], s_parameters = [],
               CACHED_SP1 = [], CACHED_RES = None \<rparr>"

text \<open>The system \<open>{u_0^2 - x, u_0 - 1}\<close> over the family \<open>u\<close>, which is not linear.\<close>

definition sys_sq :: "(dpoly, gen list) rwo_system" where
  "sys_sq = \<lparr> s_class = DifferentialSystem,
      s_equations = [poly [''u''] [([((''u'', 0), 2)], [1]), ([], [0, - 1])],
                     poly [''u''] [([((''u'', 0), 1)], [1]), ([], [- 1])]],
      s_parent = [''u''], s_variables = [''u''], s_parameters = [],
      CACHED_SP1 = [], CACHED_RES = None \<rparr>"

text \<open>
  An eliminator that answers \<open>1 - x\<close>, the resultant in \<open>u_0\<close> of \<open>u_0^2 - x\<close> and
  \<open>u_0 - 1\<close>, and leaves the store as it is.
\<close>

definition sq_elimination :: "(dpoly, gen list, apoly) eliminator" where
  "sq_elimination h self bound alg = (Inr ([(''u'', 0)], [([], [1, - 1])]), h)"

text \<open>
  The result and the store of a first call \<open>diff_resultant()\<close> on the system
  \<open>{u_0 - x, u_0 - 1}\<close>.
\<close>

definition lin_res :: dpoly where
  "lin_res = ([''u''], [([], [- 1, 1])])"

definition lin_store :: "(dpoly, gen list) store" where
  "lin_store = snd (diff_resultant E0 no_elimination [sys_lin] 0 10 ''auto'')"

section \<open>Properties\<close>

subsection \<open>The instance obeys the laws\<close>

lemma ring_laws_E0: "ring_laws E0"
  by (simp add: ring_laws_def E0_def)


lemma cache_ok_sys_uv: "cache_ok E0 [sys_uv] 0"
  by code_simp

lemma cache_ok_sys_lin: "cache_ok E0 [sys_lin] 0"
  by code_simp

subsection \<open>Equations by index\<close>

text \<open>
  C7. The pair index \<open>(i, 0)\<close> gives what the plain index \<open>i\<close> gives; the pair index
  \<open>(i, n)\<close> with \<open>n \<ge> 0\<close> gives the equation at \<open>i\<close> with the operator applied \<open>n\<close>
  times; a plain index within the range of Python's indexing (negative indices count
  from the end) gives the stored equation, and any other plain integer raises
  IndexError.
\<close>

theorem equation_pair_roundtrip:
  "equation E s (Derived i 0) = equation E s (Plain i) \<and>
   (0 \<le> n \<longrightarrow> equation E s (Derived i n) =
      (case equation E s (Plain i) of Inl e \<Rightarrow> Inl e
       | Inr p \<Rightarrow> Inr ((operate E ^^ nat n) p))) \<and>
   (- int (size_sys s) \<le> i \<and> i < int (size_sys s) \<longrightarrow>
      equation E s (Plain i) =
        Inr (s_equations s ! nat (if i < 0 then int (size_sys s) + i else i))) \<and>
   (i < - int (size_sys s) \<or> int (size_sys s) \<le> i \<longrightarrow>
      equation E s (Plain i) = Inl IndexError)"
  by (auto simp: operation_def py_getitem_def size_sys_def Let_def split: sum.splits)

theorem equation_pair_roundtrip_witness:
  "equation E0 sys_uv (Derived 1 2) = Inr ((operate E0 ^^ 2) (s_equations sys_uv ! 1)) \<and>
   equation E0 sys_uv (Derived 1 0) = Inr (s_equations sys_uv ! 1) \<and>
   equation E0 sys_uv (Plain 2) = Inl IndexError"
proof -
  have sz: "int (size_sys sys_uv) = 2"
    by (simp add: size_sys_def sys_uv_def)
  have n: "(0::int) \<le> 2" and i: "- int (size_sys sys_uv) \<le> 1 \<and> 1 < int (size_sys sys_uv)"
    using sz by simp_all
  have o: "(2::int) < - int (size_sys sys_uv) \<or> int (size_sys sys_uv) \<le> 2"
    using sz by simp
  note T = equation_pair_roundtrip [where E = E0 and s = sys_uv and n = 2]
  from T [where i = 1] i
  have p: "equation E0 sys_uv (Plain 1) = Inr (s_equations sys_uv ! 1)"
    by simp
  from T [where i = 1] n p
  have "equation E0 sys_uv (Derived 1 2) = Inr ((operate E0 ^^ 2) (s_equations sys_uv ! 1))"
    by simp
  moreover from T [where i = 1] p
  have "equation E0 sys_uv (Derived 1 0) = Inr (s_equations sys_uv ! 1)"
    by simp
  moreover from T [where i = 2] o
  have "equation E0 sys_uv (Plain 2) = Inl IndexError"
    by blast
  ultimately show ?thesis by simp
qed

subsection \<open>The store only grows\<close>

lemma new_system_length:
  "new_system E h cls eqs P vs = (res, h') \<Longrightarrow> length h \<le> length h'"
  by (auto simp: new_system_def split: sum.splits)

lemma extend_checked_length:
  assumes "extend_checked E h self vs = (res, h')"
  shows "length h \<le> length h'"
proof (cases "list_ex bad_entry vs")
  case True
  with assms show ?thesis by (simp add: extend_checked_def)
next
  case False
  show ?thesis
  proof (cases "map_of (CACHED_SP1 (h ! self)) (map the_int vs)")
    case (Some r)
    with False assms show ?thesis by (simp add: extend_checked_def Let_def)
  next
    case None
    show ?thesis
    proof (cases "new_equations E (h ! self) (map the_int vs)")
      case (Inl e)
      with None False assms show ?thesis by (simp add: extend_checked_def Let_def)
    next
      case (Inr eqs)
      obtain r1 h1 where n: "new_system E h (s_class (h ! self)) eqs (Some (s_parent (h ! self))) (Some (s_variables (h ! self))) = (r1, h1)"
        by (cases "new_system E h (s_class (h ! self)) eqs (Some (s_parent (h ! self))) (Some (s_variables (h ! self)))")
      then have "length h \<le> length h1" by (rule new_system_length)
      with Inr None False assms n show ?thesis
        by (cases r1) (auto simp: extend_checked_def Let_def)
    qed
  qed
qed

lemma extend_by_operation_length:
  "extend_by_operation E h self Ls = (res, h') \<Longrightarrow> length h \<le> length h'"
  by (cases Ls) (auto dest: extend_checked_length)


lemma search_extension_length:
  "search_extension E h self cands = (res, h') \<Longrightarrow> length h \<le> length h'"
proof (induction cands arbitrary: h)
  case Nil
  then show ?case by simp
next
  case (Cons L cands)
  obtain r1 h1 where e: "extend_by_operation E h self (PTuple (map PInt L)) = (r1, h1)"
    by (cases "extend_by_operation E h self (PTuple (map PInt L))")
  then have l: "length h \<le> length h1" by (rule extend_by_operation_length)
  show ?case
  proof (cases r1)
    case (Inl e1)
    with Cons.prems e l show ?thesis by simp
  next
    case (Inr r)
    show ?thesis
    proof (cases "is_sp2 E (h1 ! r)")
      case (Inl e2)
      with Inr Cons.prems e l show ?thesis by simp
    next
      case ok: (Inr b)
      show ?thesis
      proof (cases b)
        case True
        with ok Inr Cons.prems e l show ?thesis by simp
      next
        case False
        with ok Inr Cons.prems e have "search_extension E h1 self cands = (res, h')" by simp
        then have "length h1 \<le> length h'" by (rule Cons.IH)
        with l show ?thesis by simp
      qed
    qed
  qed
qed

lemma get_extension_length:
  "get_extension E h self bound = (res, h') \<Longrightarrow> length h \<le> length h'"
  by (cases "bound < 0") (auto simp: get_extension_def dest: search_extension_length)

lemma macaulay_length:
  assumes "macaulay E h self bound = (res, h')"
  shows "length h \<le> length h'"
proof -
  obtain r1 h1 where g: "get_extension E h self bound = (r1, h1)"
    by (cases "get_extension E h self bound")
  then have l1: "length h \<le> length h1" by (rule get_extension_length)
  show ?thesis
  proof (cases r1)
    case (Inl e)
    with assms g l1 show ?thesis by (simp add: macaulay_def)
  next
    case (Inr L)
    obtain r2 h2 where x: "extend_by_operation E h1 self (PTuple (map PInt L)) = (r2, h2)"
      by (cases "extend_by_operation E h1 self (PTuple (map PInt L))")
    then have l2: "length h1 \<le> length h2" by (rule extend_by_operation_length)
    from assms g Inr x have "h' = h2"
      by (simp add: macaulay_def split: sum.splits list.splits)
    with l1 l2 show ?thesis by simp
  qed
qed

lemma compute_resultant_length:
  assumes "eliminator_ok it" "compute_resultant E it h self bound alg alg_res = (res, h')"
  shows "length h \<le> length h'"
proof -
  have "length h \<le> length (snd (it h self bound alg_res))"
    using assms(1) by (simp add: eliminator_ok_def)
  with assms(2) show ?thesis
    by (auto simp: compute_resultant_def dixon_def split: if_splits dest: macaulay_length)
qed

lemma diff_resultant_hit:
  "CACHED_RES (h ! self) = Some res \<Longrightarrow> diff_resultant E it h self bound_L alg_res = (Inr res, h)"
  by (simp add: diff_resultant_def)

lemma diff_resultant_stores:
  assumes "eliminator_ok it" "self < length h"
    and "diff_resultant E it h self bound_L alg_res = (Inr res, h')"
  shows "CACHED_RES (h' ! self) = Some res"
proof (cases "CACHED_RES (h ! self)")
  case (Some r)
  with assms(3) show ?thesis by (auto simp: diff_resultant_def)
next
  case None
  obtain out h1 where c: "compute_resultant E it h self bound_L (to_use_alg E (h ! self) alg_res) alg_res = (out, h1)"
    by (cases "compute_resultant E it h self bound_L (to_use_alg E (h ! self) alg_res) alg_res")
  with assms(1) have "length h \<le> length h1" by (rule compute_resultant_length)
  with assms(2) have "self < length h1" by simp
  with None assms(3) c show ?thesis
    by (cases out) (auto simp: diff_resultant_def Let_def split: if_splits)
qed

subsection \<open>The resultant: cache, validation and choice of algorithm\<close>

lemma valid_names:
  "''auto'' \<in> set [''auto'', ''iterative'', ''dixon'', ''macaulay'']"
  "''dixon'' \<in> set [''auto'', ''iterative'', ''dixon'', ''macaulay'']"
  "''macaulay'' \<in> set [''auto'', ''iterative'', ''dixon'', ''macaulay'']"
  "''dixon'' \<noteq> ''auto''" "''macaulay'' \<noteq> ''auto''" "''macaulay'' \<noteq> ''dixon''"
  "''iterative'' \<noteq> ''dixon''" "''iterative'' \<noteq> ''macaulay''"
  by simp_all

lemma invalid_uncached:
  "alg_res \<notin> set [''auto'', ''iterative'', ''dixon'', ''macaulay''] \<Longrightarrow> CACHED_RES (h ! self) = None \<Longrightarrow>
      diff_resultant E it h self bound_L alg_res = (Inl ValueError, h)"
  unfolding diff_resultant_def by (simp only: option.case if_True not_False_eq_True)

lemma negative_bound_uncached:
  assumes "bound_L < 0" and "CACHED_RES (h ! self) = None"
  shows "diff_resultant E it h self bound_L ''macaulay'' = (Inl ValueError, h)"
proof -
  from assms(1) have "macaulay E h self bound_L = (Inl ValueError, h)"
    by (simp add: macaulay_def get_extension_def)
  then have "compute_resultant E it h self bound_L (to_use_alg E (h ! self) ''macaulay'')
      ''macaulay'' = (Inl ValueError, h)"
    unfolding to_use_alg_def compute_resultant_def using valid_names by simp
  with assms(2) show ?thesis
    unfolding diff_resultant_def using valid_names by simp
qed

lemma lin_first_result:
  "fst (diff_resultant E0 no_elimination [sys_lin] 0 10 ''auto'') = Inr lin_res"
  by code_simp

lemma lin_first_call:
  "diff_resultant E0 no_elimination [sys_lin] 0 10 ''auto'' = (Inr lin_res, lin_store)"
  using lin_first_result unfolding lin_store_def by (simp add: prod_eq_iff)

lemma lin_uncached: "CACHED_RES ([sys_lin] ! 0) = None"
  by (simp add: sys_lin_def)

lemma no_elimination_ok: "eliminator_ok no_elimination"
  by (simp add: eliminator_ok_def no_elimination_def)

text \<open>
  C9. A system that holds a cached resultant returns it from every call, whatever the
  arguments, and leaves the store as it is; with a keyword outside the four names the
  call raises ValueError exactly when nothing is cached, and so does the Macaulay call
  with a negative bound; and a call that returns a result has cached it, so that every
  later call on the same object, with any bound and any keyword, returns that result.
\<close>

theorem diff_resultant_cache:
  "(CACHED_RES (h ! self) = Some res \<longrightarrow>
      diff_resultant E it h self bound_L alg_res = (Inr res, h)) \<and>
   (alg_res \<notin> set [''auto'', ''iterative'', ''dixon'', ''macaulay''] \<longrightarrow>
      (fst (diff_resultant E it h self bound_L alg_res) = Inl ValueError
         \<longleftrightarrow> CACHED_RES (h ! self) = None)) \<and>
   (eliminator_ok it \<and> self < length h \<and>
    diff_resultant E it h self bound_L alg_res = (Inr res, h') \<longrightarrow>
      CACHED_RES (h' ! self) = Some res \<and>
      (\<forall>b a. diff_resultant E it h' self b a = (Inr res, h'))) \<and>
   (bound_L < 0 \<longrightarrow>
      (fst (diff_resultant E it h self bound_L ''macaulay'') = Inl ValueError
         \<longleftrightarrow> CACHED_RES (h ! self) = None))"
proof (intro conjI impI)
  assume "CACHED_RES (h ! self) = Some res"
  then show "diff_resultant E it h self bound_L alg_res = (Inr res, h)" by (rule diff_resultant_hit)
next
  assume neg: "bound_L < 0"
  show "fst (diff_resultant E it h self bound_L ''macaulay'') = Inl ValueError
         \<longleftrightarrow> CACHED_RES (h ! self) = None"
  proof (cases "CACHED_RES (h ! self)")
    case None
    with neg have "diff_resultant E it h self bound_L ''macaulay'' = (Inl ValueError, h)"
      by (rule negative_bound_uncached)
    with None show ?thesis by simp
  next
    case (Some r)
    then have "diff_resultant E it h self bound_L ''macaulay'' = (Inr r, h)"
      by (rule diff_resultant_hit)
    with Some show ?thesis by simp
  qed
next
  assume inv: "alg_res \<notin> set [''auto'', ''iterative'', ''dixon'', ''macaulay'']"
  show "fst (diff_resultant E it h self bound_L alg_res) = Inl ValueError
         \<longleftrightarrow> CACHED_RES (h ! self) = None"
  proof (cases "CACHED_RES (h ! self)")
    case None
    with inv have "diff_resultant E it h self bound_L alg_res = (Inl ValueError, h)"
      by (rule invalid_uncached)
    with None show ?thesis by simp
  next
    case (Some r)
    then have "diff_resultant E it h self bound_L alg_res = (Inr r, h)"
      by (rule diff_resultant_hit)
    with Some show ?thesis by simp
  qed
next
  assume a: "eliminator_ok it \<and> self < length h \<and>
    diff_resultant E it h self bound_L alg_res = (Inr res, h')"
  then have a1: "eliminator_ok it" and a2: "self < length h"
    and a3: "diff_resultant E it h self bound_L alg_res = (Inr res, h')"
    by (rule conjunct1, rule conjunct2 [THEN conjunct1], rule conjunct2 [THEN conjunct2])
  from a1 a2 a3 show c: "CACHED_RES (h' ! self) = Some res"
    by (rule diff_resultant_stores)
  show "\<forall>b a. diff_resultant E it h' self b a = (Inr res, h')"
    by (intro allI) (rule diff_resultant_hit [OF c])
qed

theorem diff_resultant_cache_witness:
  "diff_resultant E0 no_elimination lin_store 0 (- 3) ''sylvester'' = (Inr lin_res, lin_store) \<and>
   diff_resultant E0 no_elimination lin_store 0 10 ''dixon'' = (Inr lin_res, lin_store) \<and>
   fst (diff_resultant E0 no_elimination [sys_lin] 0 10 ''sylvester'') = Inl ValueError"
proof -
  have pre: "eliminator_ok no_elimination \<and> 0 < length [sys_lin] \<and>
      diff_resultant E0 no_elimination [sys_lin] 0 10 ''auto'' = (Inr lin_res, lin_store)"
    using no_elimination_ok lin_first_call by simp
  have inv: "''sylvester'' \<notin> set [''auto'', ''iterative'', ''dixon'', ''macaulay'']"
    by simp
  note later = diff_resultant_cache [where E = E0 and it = no_elimination and h = "[sys_lin]"
      and self = 0 and bound_L = 10 and res = lin_res and h' = lin_store
      and alg_res = "''auto''", THEN conjunct2, THEN conjunct2, THEN conjunct1, THEN mp, OF pre,
      THEN conjunct2]
  note invalid = diff_resultant_cache [where E = E0 and it = no_elimination and h = "[sys_lin]"
      and self = 0 and bound_L = 10 and res = lin_res and h' = lin_store
      and alg_res = "''sylvester''", THEN conjunct2, THEN conjunct1, THEN mp, OF inv]
  have a: "diff_resultant E0 no_elimination lin_store 0 (- 3) ''sylvester'' = (Inr lin_res, lin_store)"
    using later [THEN spec, THEN spec] .
  have b: "diff_resultant E0 no_elimination lin_store 0 10 ''dixon'' = (Inr lin_res, lin_store)"
    using later [THEN spec, THEN spec] .
  have c: "fst (diff_resultant E0 no_elimination [sys_lin] 0 10 ''sylvester'') = Inl ValueError"
    using invalid lin_uncached by (rule iffD2)
  from a b c show ?thesis by (intro conjI)
qed

text \<open>
  C6. With \<open>alg_res = "auto"\<close> the algorithm used is \<open>"macaulay"\<close> when the system is
  linear in its variables and \<open>"iterative"\<close> otherwise: the computation that runs is
  the Macaulay one in the first case and the iterative eliminator (which receives the
  keyword \<open>"auto"\<close>) in the second, never Dixon's; on a linear system without a cached
  resultant the call is the call with \<open>alg_res = "macaulay"\<close>. On every system
  without a cached resultant, linear or not, the call \<open>diff_resultant(alg_res="auto")\<close>
  is that computation followed by the test for a zero result and the store of the
  result in the cache.
\<close>

theorem auto_algorithm:
  "to_use_alg E s ''auto'' = (if is_linear E s None then ''macaulay'' else ''iterative'') \<and>
   compute_resultant E it h self b (to_use_alg E (h ! self) ''auto'') ''auto'' =
     (if is_linear E (h ! self) None then macaulay E h self b else it h self b ''auto'') \<and>
   (CACHED_RES (h ! self) = None \<and> is_linear E (h ! self) None \<longrightarrow>
      diff_resultant E it h self b ''auto'' = diff_resultant E it h self b ''macaulay'') \<and>
   (CACHED_RES (h ! self) = None \<longrightarrow>
      diff_resultant E it h self b ''auto'' =
        (case (if is_linear E (h ! self) None then macaulay E h self b
               else it h self b ''auto'') of
           (Inl e, h') \<Rightarrow> (Inl e, h')
         | (Inr output, h') \<Rightarrow>
             if alg_is_zero E output then (Inl ValueError, h')
             else (Inr (to_parent E (s_parent (h' ! self)) output),
                   h'[self := (h' ! self)
                        \<lparr>CACHED_RES := Some (to_parent E (s_parent (h' ! self)) output)\<rparr>])))"
proof -
  have t: "to_use_alg E s ''auto'' = (if is_linear E s None then ''macaulay'' else ''iterative'')" for s
    by (simp add: to_use_alg_def decide_resultant_algorithm_def)
  have m: "to_use_alg E s ''macaulay'' = ''macaulay''" for s
    unfolding to_use_alg_def using valid_names by simp
  have c: "compute_resultant E it h self b (to_use_alg E (h ! self) ''auto'') ''auto'' =
     (if is_linear E (h ! self) None then macaulay E h self b else it h self b ''auto'')"
    unfolding t compute_resultant_def using valid_names by simp
  have c2: "is_linear E (h ! self) None \<Longrightarrow>
     compute_resultant E it h self b (to_use_alg E (h ! self) ''auto'') ''auto'' =
     compute_resultant E it h self b (to_use_alg E (h ! self) ''macaulay'') ''macaulay''"
    unfolding t m compute_resultant_def using valid_names by simp
  have d: "CACHED_RES (h ! self) = None \<and> is_linear E (h ! self) None \<longrightarrow>
      diff_resultant E it h self b ''auto'' = diff_resultant E it h self b ''macaulay''"
    unfolding diff_resultant_def using c2 valid_names by simp
  have e: "CACHED_RES (h ! self) = None \<longrightarrow>
      diff_resultant E it h self b ''auto'' =
        (case (if is_linear E (h ! self) None then macaulay E h self b
               else it h self b ''auto'') of
           (Inl e, h') \<Rightarrow> (Inl e, h')
         | (Inr output, h') \<Rightarrow>
             if alg_is_zero E output then (Inl ValueError, h')
             else (Inr (to_parent E (s_parent (h' ! self)) output),
                   h'[self := (h' ! self)
                        \<lparr>CACHED_RES := Some (to_parent E (s_parent (h' ! self)) output)\<rparr>]))"
  proof
    assume n: "CACHED_RES (h ! self) = None"
    show "diff_resultant E it h self b ''auto'' =
        (case (if is_linear E (h ! self) None then macaulay E h self b
               else it h self b ''auto'') of
           (Inl e, h') \<Rightarrow> (Inl e, h')
         | (Inr output, h') \<Rightarrow>
             if alg_is_zero E output then (Inl ValueError, h')
             else (Inr (to_parent E (s_parent (h' ! self)) output),
                   h'[self := (h' ! self)
                        \<lparr>CACHED_RES := Some (to_parent E (s_parent (h' ! self)) output)\<rparr>]))"
      unfolding diff_resultant_def c n option.case Let_def
      using valid_names(1) by (simp only: not_True_eq_False if_False)
  qed
  from t c d e show ?thesis by (intro conjI)
qed

theorem auto_algorithm_witness:
  "to_use_alg E0 sys_lin ''auto'' = ''macaulay'' \<and>
   diff_resultant E0 no_elimination [sys_lin] 0 10 ''auto'' =
     diff_resultant E0 no_elimination [sys_lin] 0 10 ''macaulay'' \<and>
   to_use_alg E0 sys_sq ''auto'' = ''iterative'' \<and>
   diff_resultant E0 no_elimination [sys_sq] 0 10 ''auto'' = (Inl ValueError, [sys_sq]) \<and>
   diff_resultant E0 sq_elimination [sys_sq] 0 10 ''auto'' =
     (Inr ([''u''], [([], [1, - 1])]),
      [sys_sq\<lparr>CACHED_RES := Some ([''u''], [([], [1, - 1])])\<rparr>])"
proof -
  have lin: "is_linear E0 sys_lin None" by code_simp
  have nonlin: "\<not> is_linear E0 ([sys_sq] ! 0) None" by code_simp
  have nonlin': "\<not> is_linear E0 sys_sq None" by code_simp
  have unc: "CACHED_RES ([sys_sq] ! 0) = None" by (simp add: sys_sq_def)
  note T = auto_algorithm [where E = E0 and s = sys_lin and it = no_elimination
      and h = "[sys_lin]" and self = 0 and b = 10]
  from T lin have a: "to_use_alg E0 sys_lin ''auto'' = ''macaulay''" by simp
  from T lin lin_uncached
  have b: "diff_resultant E0 no_elimination [sys_lin] 0 10 ''auto'' =
     diff_resultant E0 no_elimination [sys_lin] 0 10 ''macaulay''" by simp
  from auto_algorithm [where E = E0 and s = sys_sq, THEN conjunct1] nonlin'
  have c: "to_use_alg E0 sys_sq ''auto'' = ''iterative''" by simp
  from auto_algorithm [where E = E0 and it = no_elimination and h = "[sys_sq]" and self = 0
      and b = 10, THEN conjunct2, THEN conjunct2, THEN conjunct2, THEN mp, OF unc]
  have d: "diff_resultant E0 no_elimination [sys_sq] 0 10 ''auto'' = (Inl ValueError, [sys_sq])"
    using nonlin by (simp add: no_elimination_def)
  from auto_algorithm [where E = E0 and it = sq_elimination and h = "[sys_sq]" and self = 0
      and b = 10, THEN conjunct2, THEN conjunct2, THEN conjunct2, THEN mp, OF unc]
  have e: "diff_resultant E0 sq_elimination [sys_sq] 0 10 ''auto'' =
     (Inr ([''u''], [([], [1, - 1])]),
      [sys_sq\<lparr>CACHED_RES := Some ([''u''], [([], [1, - 1])])\<rparr>])"
    using nonlin by (simp add: sq_elimination_def E0_def sys_sq_def)
  from a b c d e show ?thesis by (intro conjI)
qed

text \<open>
  C4, as the code has it. On a system that holds no cached resultant,
  \<open>diff_resultant(alg_res="dixon")\<close> raises NotImplementedError and leaves the store as
  it is: no other algorithm runs and nothing is returned.
\<close>

theorem dixon_uncached:
  "CACHED_RES (h ! self) = None \<Longrightarrow>
     diff_resultant E it h self bound_L ''dixon'' = (Inl NotImplementedError, h)"
  unfolding diff_resultant_def to_use_alg_def compute_resultant_def dixon_def
  using valid_names by simp

theorem dixon_uncached_witness:
  "diff_resultant E0 no_elimination [sys_lin] 0 10 ''dixon'' = (Inl NotImplementedError, [sys_lin])"
  using dixon_uncached [OF lin_uncached] .

text \<open>
  C4, as the claim has it, fails: on the system \<open>{u_0 - x, u_0 - 1}\<close> a first call
  \<open>diff_resultant()\<close> returns \<open>x - 1\<close>, and the call \<open>diff_resultant(alg_res="dixon")\<close>
  that follows returns \<open>x - 1\<close> again instead of raising.
\<close>

theorem dixon_cached_counterexample:
  "fst (diff_resultant E0 no_elimination [sys_lin] 0 10 ''auto'') = Inr lin_res \<and>
   fst (diff_resultant E0 no_elimination
          (snd (diff_resultant E0 no_elimination [sys_lin] 0 10 ''auto'')) 0 10 ''dixon'')
     = Inr lin_res"
proof -
  have "CACHED_RES (lin_store ! 0) = Some lin_res"
    using diff_resultant_stores [OF no_elimination_ok _ lin_first_call] by simp
  then have "diff_resultant E0 no_elimination lin_store 0 10 ''dixon'' = (Inr lin_res, lin_store)"
    by (rule diff_resultant_hit)
  with lin_first_result show ?thesis by (simp add: lin_store_def)
qed

subsection \<open>Construction inside a given ring\<close>

lemma ring_lawsD:
  assumes "ring_laws E"
  shows "pushout E r r = r" and "parent_of E (coerce E r p) = r"
    and "coerce E (parent_of E p) p = p" and "parent_of E (operate E p) = parent_of E p"
  using assms unfolding ring_laws_def by simp_all

lemma foldl_pushout_same:
  assumes "ring_laws E" "list_all (\<lambda>r. r = P) rs"
  shows "foldl (pushout E) P rs = P"
  using assms(2) by (induction rs) (simp_all add: ring_lawsD(1) [OF assms(1)])

lemma coerce_same:
  assumes "ring_laws E" "list_all (\<lambda>e. parent_of E e = P) eqs"
  shows "map (coerce E P) eqs = eqs"
  using assms(2)
proof (induction eqs)
  case Nil
  then show ?case by simp
next
  case (Cons e eqs)
  then have "parent_of E e = P" by simp
  then have "coerce E P e = e" using ring_lawsD(3) [OF assms(1), of e] by simp
  with Cons show ?case by simp
qed

lemma check_variables_Inr:
  "check_variables gs vs = Inr ds \<longleftrightarrow> ds = vs \<and> list_all (\<lambda>v. v \<in> set gs) vs"
proof (induction vs arbitrary: ds)
  case Nil
  show ?case by auto
next
  case (Cons v vs)
  show ?case
  proof (cases "v \<in> set gs")
    case False
    then show ?thesis by simp
  next
    case True
    show ?thesis
    proof (cases "check_variables gs vs")
      case (Inl e)
      with Cons [of vs] have "\<not> list_all (\<lambda>v. v \<in> set gs) vs" by simp
      with Inl True show ?thesis by simp
    next
      case (Inr ds')
      with Cons [of ds'] have "ds' = vs" "list_all (\<lambda>v. v \<in> set gs) vs" by simp_all
      with Inr True show ?thesis by auto
    qed
  qed
qed

lemma init_in_parent:
  assumes "ring_laws E" "list_all (\<lambda>e. parent_of E e = P) eqs"
  shows "init E cls eqs (Some P) (Some vs) =
     (if \<not> is_RWOPolynomialRing E P then Inl TypeError
      else case check_variables (gens E P) vs of Inl e \<Rightarrow> Inl e
           | Inr dvars \<Rightarrow>
               if \<not> class_accepts E cls P then Inl TypeError
               else Inr \<lparr> s_class = cls, s_equations = eqs, s_parent = P, s_variables = dvars,
                     s_parameters = filter (\<lambda>el. el \<notin> set dvars) (gens E P),
                     CACHED_SP1 = [], CACHED_RES = None \<rparr>)"
proof -
  have "list_all (\<lambda>r. r = P) (map (parent_of E) eqs)"
    using assms(2) by (simp add: list_all_iff)
  then have "foldl (pushout E) P (map (parent_of E) eqs) = P"
    by (rule foldl_pushout_same [OF assms(1)])
  then have f: "foldl (pushout E) P (map (parent_of E) eqs) = P" .
  show ?thesis
    unfolding init_def init_base_def reduce_pushout_def Let_def option.case list.case sum.case f
      coerce_same [OF assms]
    by (cases "check_variables (gens E P) vs") simp_all
qed

lemma new_system_in_parent:
  assumes "ring_laws E" "list_all (\<lambda>e. parent_of E e = P) eqs"
    and "new_system E h cls eqs (Some P) (Some vs) = (Inr r, h')"
  shows "r = length h \<and>
     h' = h @ [\<lparr> s_class = cls, s_equations = eqs, s_parent = P, s_variables = vs,
                 s_parameters = filter (\<lambda>el. el \<notin> set vs) (gens E P),
                 CACHED_SP1 = [], CACHED_RES = None \<rparr>] \<and>
     is_RWOPolynomialRing E P \<and> class_accepts E cls P \<and>
     list_all (\<lambda>v. v \<in> set (gens E P)) vs"
proof -
  note i = init_in_parent [OF assms(1,2), of cls vs]
  show ?thesis
  proof (cases "check_variables (gens E P) vs")
    case (Inl e)
    with assms(3) i show ?thesis by (simp add: new_system_def split: if_splits)
  next
    case (Inr ds)
    then have "ds = vs" "list_all (\<lambda>v. v \<in> set (gens E P)) vs"
      by (simp_all add: check_variables_Inr)
    with Inr assms(3) i show ?thesis
      by (cases "is_RWOPolynomialRing E P"; cases "class_accepts E cls P")
        (auto simp: new_system_def)
  qed
qed

lemma new_system_ok:
  assumes "ring_laws E" "list_all (\<lambda>e. parent_of E e = P) eqs"
    and "is_RWOPolynomialRing E P" "list_all (\<lambda>v. v \<in> set (gens E P)) vs"
    and "class_accepts E cls P"
  shows "new_system E h cls eqs (Some P) (Some vs) =
     (Inr (length h),
      h @ [\<lparr> s_class = cls, s_equations = eqs, s_parent = P, s_variables = vs,
              s_parameters = filter (\<lambda>el. el \<notin> set vs) (gens E P),
              CACHED_SP1 = [], CACHED_RES = None \<rparr>])"
proof -
  have "check_variables (gens E P) vs = Inr vs"
    using assms(4) by (simp add: check_variables_Inr)
  then show ?thesis
    using assms(3,5) by (simp add: new_system_def init_in_parent [OF assms(1,2)])
qed

lemma py_getitem_mem: "py_getitem xs i = Inr p \<Longrightarrow> p \<in> set xs"
  by (auto simp: py_getitem_def split: if_splits)

lemma operate_pow_parent:
  assumes "ring_laws E"
  shows "parent_of E ((operate E ^^ n) p) = parent_of E p"
  by (induction n) (simp_all add: ring_lawsD(4) [OF assms])

lemma equation_parent:
  assumes "ring_laws E" "list_all (\<lambda>e. parent_of E e = P) (s_equations s)"
    and "equation E s i = Inr p"
  shows "parent_of E p = P"
proof (cases i)
  case (Plain k)
  with assms(3) have "p \<in> set (s_equations s)" by (auto dest: py_getitem_mem)
  with assms(2) show ?thesis by (simp add: list_all_iff)
next
  case (Derived k n)
  with assms(3) obtain q where q: "py_getitem (s_equations s) k = Inr q"
    and o: "operation E q n = Inr p"
    by (auto split: sum.splits)
  from q have "q \<in> set (s_equations s)" by (rule py_getitem_mem)
  with assms(2) have "parent_of E q = P" by (simp add: list_all_iff)
  moreover from o have "p = (operate E ^^ nat n) q"
    by (auto simp: operation_def split: if_splits)
  ultimately show ?thesis by (simp add: operate_pow_parent [OF assms(1)])
next
  case BadIndex
  with assms(3) show ?thesis by simp
qed

lemma map_err_all:
  assumes "\<And>x y. f x = Inr y \<Longrightarrow> Q y"
  shows "map_err f xs = Inr ys \<Longrightarrow> list_all Q ys"
proof (induction xs arbitrary: ys)
  case Nil
  then show ?case by simp
next
  case (Cons x xs)
  then show ?case using assms by (auto split: sum.splits)
qed

lemma equations_parent:
  assumes "ring_laws E" "list_all (\<lambda>e. parent_of E e = P) (s_equations s)"
    and "equations E s idx = Inr eqs"
  shows "list_all (\<lambda>e. parent_of E e = P) eqs"
proof -
  have m: "map_err (equation E s) js = Inr eqs \<Longrightarrow> list_all (\<lambda>e. parent_of E e = P) eqs" for js
    by (rule map_err_all [where f = "equation E s"]) (rule equation_parent [OF assms(1,2)])
  show ?thesis
  proof (cases idx)
    case AllEquations
    with assms(2,3) show ?thesis by simp
  next
    case (Slice a b c)
    show ?thesis
    proof (cases "slice_indices a b c (size_sys s)")
      case (Inl e)
      with Slice assms(3) show ?thesis by simp
    next
      case (Inr js)
      with Slice assms(3) have "map_err (equation E s) (map Plain js) = Inr eqs" by simp
      then show ?thesis by (rule m)
    qed
  next
    case (One i)
    with assms(3) have "map_err (equation E s) [Plain i] = Inr eqs"
      by (simp only: equations.simps)
    then show ?thesis by (rule m)
  next
    case Other
    with assms(3) have "map_err (equation E s) [BadIndex] = Inr eqs"
      by (simp only: equations.simps)
    then show ?thesis by (rule m)
  next
    case (Many js)
    with assms(3) have "map_err (equation E s) js = Inr eqs" by (simp only: equations.simps)
    then show ?thesis by (rule m)
  qed
qed

subsection \<open>Derived systems keep the parent ring\<close>

lemma cache_okD:
  assumes "cache_ok E h self"
  shows "self < length h" and "sys_ok E (h ! self)"
    and "map_of (CACHED_SP1 (h ! self)) Ls = Some r \<Longrightarrow>
           r < length h \<and> r \<noteq> self \<and>
           new_equations E (h ! self) Ls = Inr (s_equations (h ! r)) \<and>
           s_parent (h ! r) = s_parent (h ! self) \<and>
           s_variables (h ! r) = s_variables (h ! self)"
proof -
  from assms show "self < length h" and "sys_ok E (h ! self)"
    by (simp_all add: cache_ok_def)
  assume "map_of (CACHED_SP1 (h ! self)) Ls = Some r"
  then have "(Ls, r) \<in> set (CACHED_SP1 (h ! self))" by (rule map_of_SomeD)
  moreover from assms have "\<forall>x \<in> set (CACHED_SP1 (h ! self)).
      case x of (Ls, r) \<Rightarrow> r < length h \<and> r \<noteq> self \<and>
           new_equations E (h ! self) Ls = Inr (s_equations (h ! r)) \<and>
           s_parent (h ! r) = s_parent (h ! self) \<and>
           s_variables (h ! r) = s_variables (h ! self)"
    by (simp add: cache_ok_def list_all_iff)
  ultimately show "r < length h \<and> r \<noteq> self \<and>
           new_equations E (h ! self) Ls = Inr (s_equations (h ! r)) \<and>
           s_parent (h ! r) = s_parent (h ! self) \<and>
           s_variables (h ! r) = s_variables (h ! self)"
    by fastforce
qed

lemma sys_okD:
  assumes "sys_ok E s"
  shows "is_RWOPolynomialRing E (s_parent s)"
    and "list_all (\<lambda>e. parent_of E e = s_parent s) (s_equations s)"
    and "list_all (\<lambda>v. v \<in> set (gens E (s_parent s))) (s_variables s)"
    and "s_parameters s = filter (\<lambda>el. el \<notin> set (s_variables s)) (gens E (s_parent s))"
    and "class_accepts E (s_class s) (s_parent s)"
  using assms by (simp_all add: sys_ok_def)

lemma new_equations_all:
  assumes "\<And>i p. equation E s i = Inr p \<Longrightarrow> Q p"
    and "new_equations E s Ls = Inr eqs"
  shows "list_all Q eqs"
proof -
  from assms(2) obtain rows where
    rows: "map_err (\<lambda>i. case py_getitem Ls (int i) of Inl e \<Rightarrow> Inl e
                        | Inr L \<Rightarrow> map_err (\<lambda>k. equation E s (Derived (int i) (int k)))
                                     [0 ..< nat (L + 1)])
             [0 ..< size_sys s] = Inr rows" and eqs: "eqs = concat rows"
    unfolding new_equations_def by (auto split: sum.splits)
  have "list_all (list_all Q) rows"
  proof (rule map_err_all [OF _ rows])
    fix i row
    assume "(case py_getitem Ls (int i) of Inl e \<Rightarrow> Inl e
        | Inr L \<Rightarrow> map_err (\<lambda>k. equation E s (Derived (int i) (int k))) [0 ..< nat (L + 1)])
        = Inr row"
    then obtain L where
      "map_err (\<lambda>k. equation E s (Derived (int i) (int k))) [0 ..< nat (L + 1)] = Inr row"
      by (cases "py_getitem Ls (int i)") simp_all
    then show "list_all Q row"
      by (rule map_err_all [rotated]) (rule assms(1))
  qed
  with eqs show ?thesis by (simp add: list_all_iff)
qed

lemma subsystem_parent:
  assumes "ring_laws E" "cache_ok E h self"
    and "subsystem E h self idx vs = (Inr r, h')"
  shows "s_parent (h' ! r) = s_parent (h ! self) \<and> h' ! self = h ! self"
proof -
  let ?s = "h ! self"
  let ?vs = "case vs of None \<Rightarrow> s_variables ?s | Some vs \<Rightarrow> vs"
  note ok = sys_okD [OF cache_okD(2) [OF assms(2)]]
  from assms(3) obtain eqs where e: "equations E ?s idx = Inr eqs"
    and n: "new_system E h (s_class ?s) eqs (Some (s_parent ?s)) (Some ?vs) = (Inr r, h')"
    unfolding subsystem_def Let_def by (cases "equations E ?s idx") simp_all
  from e have "list_all (\<lambda>e. parent_of E e = s_parent ?s) eqs"
    by (rule equations_parent [OF assms(1) ok(2)])
  from new_system_in_parent [OF assms(1) this n] cache_okD(1) [OF assms(2)]
  show ?thesis by (simp add: nth_append)
qed

lemma getitem_parent:
  assumes "ring_laws E" "cache_ok E h self"
    and "getitem E h self idx = (Inr r, h')"
  shows "s_parent (h' ! r) = s_parent (h ! self) \<and> h' ! self = h ! self"
proof -
  let ?s = "h ! self"
  note ok = sys_okD [OF cache_okD(2) [OF assms(2)]]
  from assms(3) obtain eqs where e: "equations E ?s idx = Inr eqs"
    and n: "new_system E h (s_class ?s) eqs (Some (s_parent ?s)) (Some (s_variables ?s)) = (Inr r, h')"
    unfolding getitem_def Let_def by (cases "equations E ?s idx") simp_all
  from e have "list_all (\<lambda>e. parent_of E e = s_parent ?s) eqs"
    by (rule equations_parent [OF assms(1) ok(2)])
  from new_system_in_parent [OF assms(1) this n] cache_okD(1) [OF assms(2)]
  show ?thesis by (simp add: nth_append)
qed

lemma extend_checked_result:
  assumes "ring_laws E" "cache_ok E h self"
    and "extend_checked E h self vs = (Inr r, h')"
  shows "r < length h' \<and> r \<noteq> self \<and>
     new_equations E (h ! self) (map the_int vs) = Inr (s_equations (h' ! r)) \<and>
     s_parent (h' ! r) = s_parent (h ! self) \<and>
     s_variables (h' ! r) = s_variables (h ! self) \<and>
     s_equations (h' ! self) = s_equations (h ! self) \<and>
     s_parent (h' ! self) = s_parent (h ! self) \<and>
     s_variables (h' ! self) = s_variables (h ! self) \<and>
     map_of (CACHED_SP1 (h' ! self)) (map the_int vs) = Some r \<and>
     \<not> list_ex bad_entry vs"
proof -
  let ?s = "h ! self" and ?Ls = "map the_int vs"
  note ok = sys_okD [OF cache_okD(2) [OF assms(2)]]
  note self = cache_okD(1) [OF assms(2)]
  from assms(3) have good: "\<not> list_ex bad_entry vs"
    by (cases "list_ex bad_entry vs") (simp_all add: extend_checked_def)
  show ?thesis
  proof (cases "map_of (CACHED_SP1 ?s) ?Ls")
    case (Some r0)
    with good assms(3) have "r0 = r" "h' = h" by (simp_all add: extend_checked_def Let_def)
    with Some cache_okD(3) [OF assms(2), of ?Ls r] good show ?thesis by simp
  next
    case None
    with good assms(3) obtain eqs where ne: "new_equations E ?s ?Ls = Inr eqs"
      by (cases "new_equations E ?s ?Ls") (simp_all add: extend_checked_def Let_def)
    obtain r1 h1 where n: "new_system E h (s_class ?s) eqs (Some (s_parent ?s)) (Some (s_variables ?s)) = (r1, h1)"
      by (cases "new_system E h (s_class ?s) eqs (Some (s_parent ?s)) (Some (s_variables ?s))")
    with None good ne assms(3) have r1: "r1 = Inr r"
      and h': "h' = h1[self := (h1 ! self)\<lparr>CACHED_SP1 := (?Ls, r) # CACHED_SP1 (h1 ! self)\<rparr>]"
      by (cases r1; simp add: extend_checked_def Let_def)+
    have "list_all (\<lambda>e. parent_of E e = s_parent ?s) eqs"
      using ne by (rule new_equations_all [rotated]) (rule equation_parent [OF assms(1) ok(2)])
    from new_system_in_parent [OF assms(1) this n [unfolded r1]]
    have r: "r = length h" and h1: "h1 = h @ [\<lparr> s_class = s_class ?s, s_equations = eqs, s_parent = s_parent ?s,
         s_variables = s_variables ?s,
         s_parameters = filter (\<lambda>el. el \<notin> set (s_variables ?s)) (gens E (s_parent ?s)),
         CACHED_SP1 = [], CACHED_RES = None \<rparr>]"
      by simp_all
    from r h1 h' self ne good show ?thesis
      by (simp add: nth_append)
  qed
qed

lemma extend_by_operation_result:
  assumes "ring_laws E" "cache_ok E h self"
    and "extend_by_operation E h self Ls = (Inr r, h')"
  shows "s_parent (h' ! r) = s_parent (h ! self) \<and> s_parent (h' ! self) = s_parent (h ! self)"
proof -
  from assms(3) obtain vs where "extend_checked E h self vs = (Inr r, h')"
    by (cases Ls) simp_all
  from extend_checked_result [OF assms(1,2) this] show ?thesis by simp
qed

text \<open>
  C10. Each operation that builds a system from a system \<open>S\<close> (\<open>subsystem\<close>,
  \<open>change_variables\<close>, indexing, \<open>extend_by_operation\<close>), when it returns, returns a
  system whose parent ring is the parent ring of \<open>S\<close>, and leaves the parent ring of
  \<open>S\<close> as it was.
\<close>

theorem derived_systems_parent:
  assumes "ring_laws E" and "cache_ok E h self"
  shows "(subsystem E h self idx vs = (Inr r, h') \<longrightarrow>
            s_parent (h' ! r) = s_parent (h ! self) \<and> s_parent (h' ! self) = s_parent (h ! self)) \<and>
         (change_variables E h self va = (Inr r, h') \<longrightarrow>
            s_parent (h' ! r) = s_parent (h ! self) \<and> s_parent (h' ! self) = s_parent (h ! self)) \<and>
         (getitem E h self idx = (Inr r, h') \<longrightarrow>
            s_parent (h' ! r) = s_parent (h ! self) \<and> s_parent (h' ! self) = s_parent (h ! self)) \<and>
         (extend_by_operation E h self Ls = (Inr r, h') \<longrightarrow>
            s_parent (h' ! r) = s_parent (h ! self) \<and> s_parent (h' ! self) = s_parent (h ! self))"
proof (intro conjI impI)
  assume "subsystem E h self idx vs = (Inr r, h')"
  from subsystem_parent [OF assms this]
  show "s_parent (h' ! r) = s_parent (h ! self)" "s_parent (h' ! self) = s_parent (h ! self)"
    by simp_all
next
  assume "change_variables E h self va = (Inr r, h')"
  then have "subsystem E h self AllEquations
      (Some (case va of Families vs \<Rightarrow> vs | Family v \<Rightarrow> [v])) = (Inr r, h')"
    by (simp add: change_variables_def Let_def)
  from subsystem_parent [OF assms this]
  show "s_parent (h' ! r) = s_parent (h ! self)" "s_parent (h' ! self) = s_parent (h ! self)"
    by simp_all
next
  assume "getitem E h self idx = (Inr r, h')"
  from getitem_parent [OF assms this]
  show "s_parent (h' ! r) = s_parent (h ! self)" "s_parent (h' ! self) = s_parent (h ! self)"
    by simp_all
next
  assume "extend_by_operation E h self Ls = (Inr r, h')"
  from extend_by_operation_result [OF assms this]
  show "s_parent (h' ! r) = s_parent (h ! self)" "s_parent (h' ! self) = s_parent (h ! self)"
    by simp_all
qed

lemma sys_ok_uv: "sys_ok E0 ([sys_uv] ! 0)"
  using cache_okD(2) [OF cache_ok_sys_uv] .

theorem derived_systems_parent_witness:
  "s_parent (snd (extend_by_operation E0 [sys_uv] 0 (PList [PInt 1, PInt 2])) ! 1) = [''u'', ''v''] \<and>
   s_parent (snd (subsystem E0 [sys_uv] 0 (Many [Derived 0 1, Plain 1]) (Some [''v''])) ! 1)
     = [''u'', ''v'']"
proof -
  let ?x = "extend_by_operation E0 [sys_uv] 0 (PList [PInt 1, PInt 2])"
  let ?y = "subsystem E0 [sys_uv] 0 (Many [Derived 0 1, Plain 1]) (Some [''v''])"
  have "fst ?x = Inr 1" by code_simp
  then have x: "?x = (Inr 1, snd ?x)" by (simp add: prod_eq_iff)
  have "fst ?y = Inr 1" by code_simp
  then have y: "?y = (Inr 1, snd ?y)" by (simp add: prod_eq_iff)
  have p: "s_parent ([sys_uv] ! 0) = [''u'', ''v'']" by (simp add: sys_uv_def)
  note T = derived_systems_parent [OF ring_laws_E0 cache_ok_sys_uv, where r = 1]
  from T [where h' = "snd ?x" and Ls = "PList [PInt 1, PInt 2]", THEN conjunct2, THEN conjunct2,
      THEN conjunct2, THEN mp, OF x, THEN conjunct1]
  have "s_parent (snd ?x ! 1) = [''u'', ''v'']" unfolding p .
  moreover
  from T [where h' = "snd ?y" and idx = "Many [Derived 0 1, Plain 1]" and vs = "Some [''v'']",
      THEN conjunct1, THEN mp, OF y, THEN conjunct1]
  have "s_parent (snd ?y ! 1) = [''u'', ''v'']" unfolding p .
  ultimately show ?thesis by (rule conjI)
qed

subsection \<open>Changing the variables\<close>

text \<open>
  C8. \<open>change_variables(S.variables)\<close> allocates a system that has the equations, the
  parent ring, the variables and the parameters of \<open>S\<close> (it is \<open>S\<close> with empty caches);
  \<open>change_variables(vs)\<close> is \<open>subsystem(None, vs)\<close> for a list or tuple \<open>vs\<close>, and
  a single family is first wrapped into a list.
\<close>

theorem change_variables_same:
  assumes "ring_laws E" and "sys_ok E (h ! self)"
  shows "change_variables E h self (Families (s_variables (h ! self))) =
           (Inr (length h), h @ [(h ! self)\<lparr>CACHED_SP1 := [], CACHED_RES := None\<rparr>]) \<and>
         change_variables E h self (Families vs) = subsystem E h self AllEquations (Some vs) \<and>
         change_variables E h self (Family v) = subsystem E h self AllEquations (Some [v])"
proof -
  note ok = sys_okD [OF assms(2)]
  have "new_system E h (s_class (h ! self)) (s_equations (h ! self)) (Some (s_parent (h ! self)))
          (Some (s_variables (h ! self))) =
        (Inr (length h), h @ [(h ! self)\<lparr>CACHED_SP1 := [], CACHED_RES := None\<rparr>])"
    unfolding new_system_ok [OF assms(1) ok(2) ok(1) ok(3) ok(5)] using ok(4) by simp
  then have "change_variables E h self (Families (s_variables (h ! self))) =
           (Inr (length h), h @ [(h ! self)\<lparr>CACHED_SP1 := [], CACHED_RES := None\<rparr>])"
    by (simp add: change_variables_def subsystem_def Let_def)
  then show ?thesis by (simp add: change_variables_def)
qed

theorem change_variables_same_witness:
  "change_variables E0 [sys_uv] 0 (Families [''u'']) =
     (Inr 1, [sys_uv, sys_uv\<lparr>CACHED_SP1 := [], CACHED_RES := None\<rparr>])"
proof -
  have v: "s_variables ([sys_uv] ! 0) = [''u'']" by (simp add: sys_uv_def)
  from change_variables_same [OF ring_laws_E0 sys_ok_uv, THEN conjunct1]
  show ?thesis unfolding v by simp
qed

subsection \<open>The balance condition SP2\<close>

text \<open>
  C2. \<open>is_sp2()\<close> returns true exactly when, with \<open>n\<close> the number of algebraic
  variables and \<open>m\<close> the number of equations, the system is homogeneous and \<open>n = m\<close>
  or it is not homogeneous and \<open>n = m - 1\<close>; it returns that comparison whenever the
  homogeneity test returns. For the system
  \<open>{x*u_0 + x^2*u_2 - (1-x)*v_0, v_1 - v_2 + u_1}\<close> with variables \<open>[u]\<close> it is false,
  and it is true on the system that \<open>extend_by_operation([1,2])\<close> returns.
\<close>

theorem is_sp2_balance:
  "(is_sp2 E s = Inr True \<longleftrightarrow>
      (is_homogeneous E s = Inr True \<and>
         int (length (algebraic_variables E s)) = int (size_sys s)) \<or>
      (is_homogeneous E s = Inr False \<and>
         int (length (algebraic_variables E s)) = int (size_sys s) - 1)) \<and>
   (is_homogeneous E s = Inr hom \<longrightarrow>
      is_sp2 E s = Inr (if hom then int (length (algebraic_variables E s)) = int (size_sys s)
                        else int (length (algebraic_variables E s)) = int (size_sys s) - 1)) \<and>
   is_sp2 E0 sys_uv = Inr False \<and>
   fst (extend_by_operation E0 [sys_uv] 0 (PList [PInt 1, PInt 2])) = Inr 1 \<and>
   is_sp2 E0 (snd (extend_by_operation E0 [sys_uv] 0 (PList [PInt 1, PInt 2])) ! 1) = Inr True"
proof -
  have a: "is_sp2 E s = Inr True \<longleftrightarrow>
      (is_homogeneous E s = Inr True \<and>
         int (length (algebraic_variables E s)) = int (size_sys s)) \<or>
      (is_homogeneous E s = Inr False \<and>
         int (length (algebraic_variables E s)) = int (size_sys s) - 1)"
    by (cases "is_homogeneous E s") (auto simp: is_sp2_def)
  have b: "is_homogeneous E s = Inr hom \<longrightarrow>
      is_sp2 E s = Inr (if hom then int (length (algebraic_variables E s)) = int (size_sys s)
                        else int (length (algebraic_variables E s)) = int (size_sys s) - 1)"
    by (simp add: is_sp2_def)
  have c: "is_sp2 E0 sys_uv = Inr False" by code_simp
  have d: "fst (extend_by_operation E0 [sys_uv] 0 (PList [PInt 1, PInt 2])) = Inr 1" by code_simp
  have e: "is_sp2 E0 (snd (extend_by_operation E0 [sys_uv] 0 (PList [PInt 1, PInt 2])) ! 1) = Inr True"
    by code_simp
  from a b c d e show ?thesis by (intro conjI)
qed

theorem is_sp2_balance_witness:
  "is_homogeneous E0 sys_u = Inr True \<and> is_sp2 E0 sys_u = Inr False"
proof -
  have h: "is_homogeneous E0 sys_u = Inr True" by code_simp
  have n: "int (length (algebraic_variables E0 sys_u)) = 2" by code_simp
  have m: "int (size_sys sys_u) = 1" by code_simp
  from is_sp2_balance [where E = E0 and s = sys_u and hom = True, THEN conjunct2, THEN conjunct1,
      THEN mp, OF h]
  have "is_sp2 E0 sys_u = Inr False" unfolding n m by simp
  with h show ?thesis by (rule conjI)
qed

subsection \<open>Arguments of the extension that the checks let through\<close>

lemma extend_rejects:
  "extend_by_operation E h self (PInt n) = (Inl TypeError, h)"
  "extend_by_operation E h self (PStr t) = (Inl TypeError, h)"
  "extend_by_operation E h self PNone = (Inl TypeError, h)"
  "list_ex bad_entry vs \<Longrightarrow> extend_by_operation E h self (PList vs) = (Inl ValueError, h)"
  "list_ex bad_entry vs \<Longrightarrow> extend_by_operation E h self (PTuple vs) = (Inl ValueError, h)"
  by (simp_all add: extend_checked_def)

text \<open>
  C5, at an argument of the wrong length. On the system of two equations above,
  \<open>extend_by_operation([0, 0, 5])\<close> raises nothing and returns a system of two
  equations, and \<open>extend_by_operation([0])\<close> raises IndexError, which is neither
  TypeError nor ValueError.
\<close>

theorem extend_wrong_length:
  "fst (extend_by_operation E0 [sys_uv] 0 (PList [PInt 0, PInt 0, PInt 5])) = Inr 1 \<and>
   size_sys (snd (extend_by_operation E0 [sys_uv] 0 (PList [PInt 0, PInt 0, PInt 5])) ! 1) = 2 \<and>
   fst (extend_by_operation E0 [sys_uv] 0 (PList [PInt 0])) = Inl IndexError"
proof -
  have a: "fst (extend_by_operation E0 [sys_uv] 0 (PList [PInt 0, PInt 0, PInt 5])) = Inr 1"
    by code_simp
  have b: "size_sys (snd (extend_by_operation E0 [sys_uv] 0 (PList [PInt 0, PInt 0, PInt 5])) ! 1) = 2"
    by code_simp
  have c: "fst (extend_by_operation E0 [sys_uv] 0 (PList [PInt 0])) = Inl IndexError"
    by code_simp
  from a b c show ?thesis by (intro conjI)
qed

subsection \<open>The extension built by \<open>extend_by_operation\<close>\<close>

lemma map_err_map:
  assumes "\<And>x. x \<in> set xs \<Longrightarrow> f x = Inr (g x)"
  shows "map_err f xs = Inr (map g xs)"
  using assms by (induction xs) simp_all

lemma equation_derived_value:
  assumes "i < size_sys s"
  shows "equation E s (Derived (int i) (int k)) = Inr ((operate E ^^ k) (s_equations s ! i))"
  using assms by (simp add: py_getitem_def operation_def size_sys_def)

text \<open>The rows of the extension, as the list comprehension builds them.\<close>

lemma new_equations_value:
  assumes "size_sys s \<le> length Ls"
  shows "new_equations E s Ls =
     Inr (concat (map (\<lambda>i. map (\<lambda>k. (operate E ^^ k) (s_equations s ! i))
                              [0 ..< nat (Ls ! i + 1)])
                      [0 ..< size_sys s]))"
proof -
  have row: "(case py_getitem Ls (int i) of Inl e \<Rightarrow> Inl e
        | Inr L \<Rightarrow> map_err (\<lambda>k. equation E s (Derived (int i) (int k))) [0 ..< nat (L + 1)])
      = Inr (map (\<lambda>k. (operate E ^^ k) (s_equations s ! i)) [0 ..< nat (Ls ! i + 1)])"
    if "i \<in> set [0 ..< size_sys s]" for i
  proof -
    from that have i: "i < size_sys s" by simp
    with assms have "py_getitem Ls (int i) = Inr (Ls ! i)" by (simp add: py_getitem_def)
    moreover have "map_err (\<lambda>k. equation E s (Derived (int i) (int k))) [0 ..< nat (Ls ! i + 1)]
        = Inr (map (\<lambda>k. (operate E ^^ k) (s_equations s ! i)) [0 ..< nat (Ls ! i + 1)])"
      by (rule map_err_map) (rule equation_derived_value [OF i])
    ultimately show ?thesis by simp
  qed
  have "map_err (\<lambda>i. case py_getitem Ls (int i) of Inl e \<Rightarrow> Inl e
        | Inr L \<Rightarrow> map_err (\<lambda>k. equation E s (Derived (int i) (int k))) [0 ..< nat (L + 1)])
          [0 ..< size_sys s]
      = Inr (map (\<lambda>i. map (\<lambda>k. (operate E ^^ k) (s_equations s ! i)) [0 ..< nat (Ls ! i + 1)])
               [0 ..< size_sys s])"
    by (rule map_err_map) (rule row)
  then show ?thesis by (simp add: new_equations_def)
qed

lemma new_equations_short:
  assumes "length Ls < size_sys s"
  shows "new_equations E s Ls = Inl IndexError"
proof -
  let ?f = "\<lambda>i. case py_getitem Ls (int i) of Inl e \<Rightarrow> Inl e
        | Inr L \<Rightarrow> map_err (\<lambda>k. equation E s (Derived (int i) (int k))) [0 ..< nat (L + 1)]"
  have pre: "map_err ?f [0 ..< length Ls] = Inr (map (\<lambda>i. map (\<lambda>k. (operate E ^^ k) (s_equations s ! i))
                              [0 ..< nat (Ls ! i + 1)]) [0 ..< length Ls])"
  proof (rule map_err_map)
    fix i assume "i \<in> set [0 ..< length Ls]"
    then have i: "i < length Ls" by simp
    then have "py_getitem Ls (int i) = Inr (Ls ! i)" by (simp add: py_getitem_def)
    moreover have "map_err (\<lambda>k. equation E s (Derived (int i) (int k))) [0 ..< nat (Ls ! i + 1)]
        = Inr (map (\<lambda>k. (operate E ^^ k) (s_equations s ! i)) [0 ..< nat (Ls ! i + 1)])"
      using i assms by (intro map_err_map equation_derived_value) simp
    ultimately show "?f i = Inr (map (\<lambda>k. (operate E ^^ k) (s_equations s ! i)) [0 ..< nat (Ls ! i + 1)])"
      by simp
  qed
  have app: "map_err f (xs @ ys) = (case map_err f xs of Inl e \<Rightarrow> Inl e
       | Inr a \<Rightarrow> (case map_err f ys of Inl e \<Rightarrow> Inl e | Inr b \<Rightarrow> Inr (a @ b)))"
    for f :: "nat \<Rightarrow> error + 'p list" and xs ys
    by (induction xs) (simp_all split: sum.splits)
  have bad: "?f (length Ls) = Inl IndexError" by (simp add: py_getitem_def)
  from assms have "[0 ..< size_sys s] = [0 ..< length Ls] @ length Ls # [Suc (length Ls) ..< size_sys s]"
    by (metis less_imp_le_nat upt_add_eq_append upt_conv_Cons le_add_diff_inverse zero_le)
  then show ?thesis
    unfolding new_equations_def by (simp add: app pre bad)
qed



lemma no_bad_entry: "list_all (\<lambda>l. 0 \<le> l) Ls \<Longrightarrow> \<not> list_ex bad_entry (map PInt Ls)"
  by (induction Ls) simp_all

lemma the_int_PInt: "map the_int (map PInt Ls) = Ls"
  by (induction Ls) simp_all

lemma extend_checked_again:
  assumes "\<not> list_ex bad_entry vs" and "map_of (CACHED_SP1 (h ! self)) (map the_int vs) = Some r"
  shows "extend_checked E h self vs = (Inr r, h)"
  using assms by (simp add: extend_checked_def)

lemma extend_checked_fresh:
  assumes "\<not> list_ex bad_entry vs" and "map_of (CACHED_SP1 (h ! self)) (map the_int vs) = None"
    and "new_equations E (h ! self) (map the_int vs) = Inr eqs"
    and "new_system E h (s_class (h ! self)) eqs (Some (s_parent (h ! self))) (Some (s_variables (h ! self))) = (Inr r, h1)"
  shows "extend_checked E h self vs =
     (Inr r, h1[self := (h1 ! self)\<lparr>CACHED_SP1 := (map the_int vs, r) # CACHED_SP1 (h1 ! self)\<rparr>])"
  using assms by (simp add: extend_checked_def)

lemma extend_checked_succeeds:
  assumes "ring_laws E" and "cache_ok E h self"
    and "size_sys (h ! self) \<le> length Ls" and "list_all (\<lambda>l. 0 \<le> l) Ls"
  shows "\<exists>r h'. extend_checked E h self (map PInt Ls) = (Inr r, h')"
proof -
  let ?s = "h ! self"
  note good = no_bad_entry [OF assms(4)]
  note ok = sys_okD [OF cache_okD(2) [OF assms(2)]]
  show ?thesis
  proof (cases "map_of (CACHED_SP1 ?s) (map the_int (map PInt Ls))")
    case (Some r)
    from extend_checked_again [OF good Some] show ?thesis by blast
  next
    case None
    obtain eqs where ne: "new_equations E ?s (map the_int (map PInt Ls)) = Inr eqs"
      unfolding the_int_PInt using new_equations_value [OF assms(3)] by blast
    then have "list_all (\<lambda>e. parent_of E e = s_parent ?s) eqs"
      by (rule new_equations_all [rotated]) (rule equation_parent [OF assms(1) ok(2)])
    from extend_checked_fresh [OF good None ne new_system_ok [OF assms(1) this ok(1) ok(3) ok(5)]]
    show ?thesis by blast
  qed
qed




text \<open>The first scenario of the spec, on \<open>{u_1 - u_0}\<close>.\<close>

lemma extend_sys_u_equations:
  "s_equations (snd (extend_by_operation E0 [sys_u] 0 (PList [PInt 0])) ! 1) =
     [poly [''u''] [([((''u'', 1), 1)], [1]), ([((''u'', 0), 1)], [- 1])]]"
  "s_equations (snd (extend_by_operation E0 [sys_u] 0 (PList [PInt 1])) ! 1) =
     [poly [''u''] [([((''u'', 1), 1)], [1]), ([((''u'', 0), 1)], [- 1])],
      poly [''u''] [([((''u'', 2), 1)], [1]), ([((''u'', 1), 1)], [- 1])]]"
  by code_simp+

subsection \<open>The candidates of the extension search\<close>

lemma compositions_Cons:
  "a # y \<in> set (compositions (Suc k) n m) \<longleftrightarrow>
     1 \<le> a \<and> a \<le> m \<and> a \<le> n \<and> y \<in> set (compositions k (n - a) m)"
  by (auto simp del: upt_Suc)

lemma compositions_Nil: "[] \<notin> set (compositions (Suc k) n m)"
  by (auto simp del: upt_Suc)

lemma compositions_sound:
  "x \<in> set (compositions k n m) \<Longrightarrow>
     length x = k \<and> (\<forall>a \<in> set x. 1 \<le> a \<and> a \<le> m) \<and> sum_list x = n"
proof (induction k arbitrary: n x)
  case 0
  then show ?case by (simp split: if_splits)
next
  case (Suc k)
  show ?case
  proof (cases x)
    case Nil
    with Suc.prems compositions_Nil show ?thesis by blast
  next
    case (Cons a y)
    from Suc.prems [unfolded Cons compositions_Cons]
    have a: "1 \<le> a" "a \<le> m" "a \<le> n"
      and y: "y \<in> set (compositions k (n - a) m)"
      by blast+
    from Suc.IH [OF y] a Cons show ?thesis by auto
  qed
qed

lemma compositions_complete:
  "length x = k \<Longrightarrow> (\<forall>a \<in> set x. 1 \<le> a \<and> a \<le> m) \<Longrightarrow> x \<in> set (compositions k (sum_list x) m)"
proof (induction k arbitrary: x)
  case 0
  then show ?case by simp
next
  case (Suc k)
  from Suc.prems(1) obtain a y where x: "x = a # y" by (cases x) auto
  with Suc.prems have y: "length y = k" "\<forall>b \<in> set y. 1 \<le> b \<and> b \<le> m"
    and a: "1 \<le> a" "a \<le> m" by auto
  from Suc.IH [OF y] have "y \<in> set (compositions k (sum_list x - a) m)"
    using x by simp
  with a show ?case unfolding x compositions_Cons by simp
qed

lemma gen_cartesian_mem:
  "L \<in> set (gen_cartesian sz b) \<longleftrightarrow>
     (\<exists>i < nat (b * int sz). \<exists>x \<in> set (compositions sz (i + sz) (nat b)).
         L = map (\<lambda>el. int el - 1) x)"
  by (auto simp: gen_cartesian_def)

lemma sum_list_shift:
  "sum_list (map (\<lambda>el. int el - 1) x) = int (sum_list x) - int (length x)"
  by (induction x) simp_all

lemma gen_cartesian_sound:
  assumes "L \<in> set (gen_cartesian sz b)"
  shows "length L = sz \<and> (\<forall>c \<in> set L. 0 \<le> c \<and> c \<le> b - 1) \<and>
     0 \<le> sum_list L \<and> sum_list L < b * int sz"
proof -
  from assms obtain i x where i: "i < nat (b * int sz)"
    and x: "x \<in> set (compositions sz (i + sz) (nat b))" and L: "L = map (\<lambda>el. int el - 1) x"
    unfolding gen_cartesian_mem by blast
  from compositions_sound [OF x]
  have len: "length x = sz" and rng: "\<forall>a \<in> set x. 1 \<le> a \<and> a \<le> nat b" and sm: "sum_list x = i + sz"
    by simp_all
  from rng have "\<forall>c \<in> set L. 0 \<le> c \<and> c \<le> b - 1"
    unfolding L by auto
  moreover have "sum_list L = int i"
    unfolding L sum_list_shift len sm by simp
  ultimately show ?thesis using len i L by auto
qed

lemma gen_cartesian_complete:
  assumes "0 < length L" and "\<forall>c \<in> set L. 0 \<le> c \<and> c \<le> b - 1"
  shows "L \<in> set (gen_cartesian (length L) b)"
proof -
  let ?x = "map (\<lambda>c. nat (c + 1)) L"
  have L: "L = map (\<lambda>el. int el - 1) ?x"
    using assms(2) by (intro nth_equalityI) auto
  have rng: "\<forall>a \<in> set ?x. 1 \<le> a \<and> a \<le> nat b"
    using assms(2) by auto
  have len: "length ?x = length L" by simp
  from compositions_complete [OF len rng]
  have mem: "?x \<in> set (compositions (length L) (sum_list ?x) (nat b))" .
  have up: "sum_list ?x \<le> length L * nat b"
    using rng by (induction L) auto
  have lo: "length L \<le> sum_list ?x"
    using rng by (induction L) auto
  from assms obtain c where "c \<in> set L" by (cases L) auto
  with assms(2) have b: "1 \<le> b" by force
  define i where "i = sum_list ?x - length L"
  have isum: "i + length L = sum_list ?x" using lo by (simp add: i_def)
  have "int i \<le> int (length L) * (b - 1)"
  proof -
    have "int (sum_list ?x) \<le> int (length L * nat b)" using up by linarith
    also have "\<dots> = int (length L) * b" using b by simp
    finally have "int (sum_list ?x) \<le> int (length L) * b" .
    with isum show ?thesis by (simp add: algebra_simps)
  qed
  then have d: "int i + int (length L) \<le> b * int (length L)"
    by (simp add: algebra_simps)
  have "1 \<le> int (length L)" using assms(1) by linarith
  with d have "int i < b * int (length L)"
    by linarith
  then have "i < nat (b * int (length L))" by linarith
  moreover from mem have "?x \<in> set (compositions (length L) (i + length L) (nat b))"
    unfolding isum .
  ultimately show ?thesis
    unfolding gen_cartesian_mem using L by blast
qed

lemma gen_cartesian_weights:
  "map sum_list (gen_cartesian sz b) =
     concat (map (\<lambda>i. replicate (length (compositions sz (i + sz) (nat b))) (int i))
                 [0 ..< nat (b * int sz)])"
proof -
  have blk: "map sum_list (map (map (\<lambda>el. int el - 1)) (compositions sz (i + sz) (nat b)))
      = replicate (length (compositions sz (i + sz) (nat b))) (int i)" for i
  proof -
    have "map (\<lambda>x. sum_list (map (\<lambda>el. int el - 1) x)) (compositions sz (i + sz) (nat b))
        = map (\<lambda>x. int i) (compositions sz (i + sz) (nat b))"
    proof (rule map_cong [OF refl])
      fix x assume "x \<in> set (compositions sz (i + sz) (nat b))"
      from compositions_sound [OF this] show "sum_list (map (\<lambda>el. int el - 1) x) = int i"
        by (simp add: sum_list_shift)
    qed
    then show ?thesis by (simp add: comp_def map_replicate_const)
  qed
  show ?thesis
    unfolding gen_cartesian_def map_concat map_map comp_def
    using blk by (simp add: comp_def)
qed

lemma sorted_blocks:
  "sorted (concat (map (\<lambda>i. replicate (f i) (int i)) [0 ..< N]))"
proof (induction N)
  case 0
  show ?case by simp
next
  case (Suc N)
  have "\<forall>x \<in> set (concat (map (\<lambda>i. replicate (f i) (int i)) [0 ..< N])). x \<le> int N"
    by auto
  with Suc show ?case
    by (simp add: sorted_append)
qed

lemma gen_cartesian_sorted: "sorted (map sum_list (gen_cartesian sz b))"
  unfolding gen_cartesian_weights by (rule sorted_blocks)

lemma gen_cartesian_first:
  assumes "gen_cartesian sz b \<noteq> []"
  shows "sum_list (hd (gen_cartesian sz b)) = 0"
proof -
  let ?c = "gen_cartesian sz b"
  from assms have hd: "hd ?c \<in> set ?c" by simp
  note s = gen_cartesian_sound [OF hd]
  then have len: "length (hd ?c) = sz" by simp
  have sz: "0 < sz"
  proof (rule ccontr)
    assume "\<not> 0 < sz"
    then have "gen_cartesian sz b = []" by (simp add: gen_cartesian_def)
    with assms show False by simp
  qed
  from s have rng: "\<forall>c \<in> set (hd ?c). 0 \<le> c \<and> c \<le> b - 1" by simp
  from sz len obtain c where "c \<in> set (hd ?c)" by (cases "hd ?c") auto
  with rng have b: "0 \<le> b - 1" by force
  have "replicate sz 0 \<in> set (gen_cartesian (length (replicate sz (0::int))) b)"
    by (rule gen_cartesian_complete) (use sz b in auto)
  then have z: "replicate sz 0 \<in> set ?c" by simp
  have "sum_list (hd ?c) \<le> sum_list (replicate sz (0::int))"
  proof -
    from assms obtain x xs where c: "?c = x # xs" by (cases ?c) auto
    from gen_cartesian_sorted [of sz b] have "\<forall>y \<in> set xs. sum_list x \<le> sum_list y"
      unfolding c by simp
    with z show ?thesis unfolding c by auto
  qed
  moreover have "sum_list (replicate sz (0::int)) = 0" by (induction sz) simp_all
  ultimately show ?thesis using s by simp
qed

subsection \<open>The search keeps the invariant and returns the first success\<close>

lemma new_equations_cong:
  "s_equations a = s_equations b \<Longrightarrow> new_equations E a Ls = new_equations E b Ls"
  by (simp add: new_equations_def size_sys_def py_getitem_def cong: sum.case_cong)

lemma is_sp2_cong:
  assumes "s_equations a = s_equations b" "s_parent a = s_parent b" "s_variables a = s_variables b"
  shows "is_sp2 E a = is_sp2 E b"
  unfolding is_sp2_def is_homogeneous_def algebraic_equations_def algebraic_variables_def
    size_sys_def assms ..

lemma extend_checked_keeps:
  assumes "ring_laws E" and "cache_ok E h self"
    and "extend_checked E h self vs = (Inr r, h')"
  shows "cache_ok E h' self"
proof -
  let ?s = "h ! self" and ?Ls = "map the_int vs"
  note ok = sys_okD [OF cache_okD(2) [OF assms(2)]]
  note self = cache_okD(1) [OF assms(2)]
  from assms(3) have good: "\<not> list_ex bad_entry vs"
    by (cases "list_ex bad_entry vs") (simp_all add: extend_checked_def)
  show ?thesis
  proof (cases "map_of (CACHED_SP1 ?s) ?Ls")
    case (Some r0)
    from extend_checked_again [OF good Some, of E] assms(3) have "h' = h" by simp
    with assms(2) show ?thesis by simp
  next
    case None
    with good assms(3) obtain eqs where ne: "new_equations E ?s ?Ls = Inr eqs"
      by (cases "new_equations E ?s ?Ls") (simp_all add: extend_checked_def Let_def)
    have par: "list_all (\<lambda>e. parent_of E e = s_parent ?s) eqs"
      using ne by (rule new_equations_all [rotated]) (rule equation_parent [OF assms(1) ok(2)])
    let ?new = "\<lparr> s_class = s_class ?s, s_equations = eqs, s_parent = s_parent ?s,
         s_variables = s_variables ?s,
         s_parameters = filter (\<lambda>el. el \<notin> set (s_variables ?s)) (gens E (s_parent ?s)),
         CACHED_SP1 = [], CACHED_RES = None \<rparr>"
    note n = new_system_ok [OF assms(1) par ok(1) ok(3) ok(5), where h = h]
    from extend_checked_fresh [OF good None ne n] assms(3)
    have r: "r = length h"
      and h': "h' = (h @ [?new])[self := ((h @ [?new]) ! self)
                 \<lparr>CACHED_SP1 := (?Ls, length h) # CACHED_SP1 ((h @ [?new]) ! self)\<rparr>]"
      by simp_all
    from self have at_self: "h' ! self = ?s\<lparr>CACHED_SP1 := (?Ls, length h) # CACHED_SP1 ?s\<rparr>"
      unfolding h' by (simp add: nth_append)
    have at_new: "h' ! length h = ?new"
      unfolding h' using self by (simp add: nth_append)
    have at_old: "h' ! a = h ! a" if "a < length h" "a \<noteq> self" for a
      unfolding h' using that by (simp add: nth_append)
    have len: "length h' = Suc (length h)" unfolding h' by simp
    have ne': "new_equations E (h' ! self) Ks = new_equations E ?s Ks" for Ks
      by (rule new_equations_cong) (simp add: at_self)
    have "sys_ok E (h' ! self)"
      using cache_okD(2) [OF assms(2)] by (simp add: at_self sys_ok_def)
    moreover have "list_all (\<lambda>(Ks, q). q < length h' \<and> q \<noteq> self \<and>
                 new_equations E (h' ! self) Ks = Inr (s_equations (h' ! q)) \<and>
                 s_parent (h' ! q) = s_parent (h' ! self) \<and>
                 s_variables (h' ! q) = s_variables (h' ! self))
              (CACHED_SP1 (h' ! self))"
    proof -
      have old: "list_all (\<lambda>(Ks, q). q < length h' \<and> q \<noteq> self \<and>
                 new_equations E (h' ! self) Ks = Inr (s_equations (h' ! q)) \<and>
                 s_parent (h' ! q) = s_parent (h' ! self) \<and>
                 s_variables (h' ! q) = s_variables (h' ! self))
              (CACHED_SP1 ?s)"
        unfolding list_all_iff
      proof (rule ballI, clarify)
        fix Ks q assume "(Ks, q) \<in> set (CACHED_SP1 ?s)"
        with assms(2) have q: "q < length h" "q \<noteq> self"
          "new_equations E ?s Ks = Inr (s_equations (h ! q))"
          "s_parent (h ! q) = s_parent ?s" "s_variables (h ! q) = s_variables ?s"
          unfolding cache_ok_def list_all_iff by auto
        then show "q < length h' \<and> q \<noteq> self \<and>
                 new_equations E (h' ! self) Ks = Inr (s_equations (h' ! q)) \<and>
                 s_parent (h' ! q) = s_parent (h' ! self) \<and>
                 s_variables (h' ! q) = s_variables (h' ! self)"
          unfolding ne' at_old [OF q(1,2)] len by (simp add: at_self)
      qed
      have new: "length h < length h' \<and> length h \<noteq> self \<and>
                 new_equations E (h' ! self) ?Ls = Inr (s_equations (h' ! length h)) \<and>
                 s_parent (h' ! length h) = s_parent (h' ! self) \<and>
                 s_variables (h' ! length h) = s_variables (h' ! self)"
        unfolding ne' at_new len using self ne by (simp add: at_self)
      from old new show ?thesis by (simp add: at_self)
    qed
    moreover have "self < length h'" using self len by simp
    ultimately show ?thesis unfolding cache_ok_def by blast
  qed
qed

lemma extend_tuple_step:
  assumes "ring_laws E" and "cache_ok E h self"
    and "size_sys (h ! self) \<le> length L" and "list_all (\<lambda>l. 0 \<le> l) L"
  obtains r h1 where "extend_by_operation E h self (PTuple (map PInt L)) = (Inr r, h1)"
    and "cache_ok E h1 self"
    and "s_equations (h1 ! self) = s_equations (h ! self)"
    and "s_parent (h1 ! self) = s_parent (h ! self)"
    and "s_variables (h1 ! self) = s_variables (h ! self)"
    and "new_equations E (h ! self) L = Inr (s_equations (h1 ! r))"
    and "s_parent (h1 ! r) = s_parent (h ! self)"
    and "s_variables (h1 ! r) = s_variables (h ! self)"
proof -
  from extend_checked_succeeds [OF assms]
  obtain r h1 where x: "extend_checked E h self (map PInt L) = (Inr r, h1)" by blast
  note res = extend_checked_result [OF assms(1,2) x, unfolded the_int_PInt]
  note keep = extend_checked_keeps [OF assms(1,2) x]
  have "extend_by_operation E h self (PTuple (map PInt L)) = (Inr r, h1)"
    using x by simp
  with keep res that show thesis by blast
qed

lemma sp2_after_eq:
  "extend_by_operation E h self (PTuple (map PInt L)) = (Inr r, h1) \<Longrightarrow>
     sp2_after E h self L = is_sp2 E (h1 ! r)"
  by (simp add: sp2_after_def)

lemma sp2_after_same:
  assumes "ring_laws E" and "cache_ok E h self" and "cache_ok E h1 self"
    and "s_equations (h1 ! self) = s_equations (h ! self)"
    and "s_parent (h1 ! self) = s_parent (h ! self)"
    and "s_variables (h1 ! self) = s_variables (h ! self)"
    and "size_sys (h ! self) \<le> length L" and "list_all (\<lambda>l. 0 \<le> l) L"
  shows "sp2_after E h1 self L = sp2_after E h self L"
proof -
  from assms(4,7) have sz: "size_sys (h1 ! self) \<le> length L" by (simp add: size_sys_def)
  obtain r k where x: "extend_by_operation E h self (PTuple (map PInt L)) = (Inr r, k)"
    and e: "new_equations E (h ! self) L = Inr (s_equations (k ! r))"
    and p: "s_parent (k ! r) = s_parent (h ! self)"
    and v: "s_variables (k ! r) = s_variables (h ! self)"
    by (rule extend_tuple_step [OF assms(1,2,7,8)])
  obtain r1 k1 where x1: "extend_by_operation E h1 self (PTuple (map PInt L)) = (Inr r1, k1)"
    and e1: "new_equations E (h1 ! self) L = Inr (s_equations (k1 ! r1))"
    and p1: "s_parent (k1 ! r1) = s_parent (h1 ! self)"
    and v1: "s_variables (k1 ! r1) = s_variables (h1 ! self)"
    by (rule extend_tuple_step [OF assms(1,3) sz assms(8)])
  from e e1 new_equations_cong [OF assms(4), of E L]
  have "s_equations (k1 ! r1) = s_equations (k ! r)" by simp
  moreover from p p1 assms(5) have "s_parent (k1 ! r1) = s_parent (k ! r)" by simp
  moreover from v v1 assms(6) have "s_variables (k1 ! r1) = s_variables (k ! r)" by simp
  ultimately have "is_sp2 E (k1 ! r1) = is_sp2 E (k ! r)" by (rule is_sp2_cong)
  then show ?thesis unfolding sp2_after_eq [OF x] sp2_after_eq [OF x1] .
qed

lemma search_extension_first:
  assumes "ring_laws E"
  shows "cache_ok E h self \<Longrightarrow>
     \<forall>L \<in> set cands. size_sys (h ! self) \<le> length L \<and> list_all (\<lambda>l. 0 \<le> l) L \<Longrightarrow>
     search_extension E h self cands = (res, h') \<Longrightarrow>
     (cache_ok E h' self \<and> s_equations (h' ! self) = s_equations (h ! self) \<and>
      s_parent (h' ! self) = s_parent (h ! self) \<and>
      s_variables (h' ! self) = s_variables (h ! self)) \<and>
     (\<exists>pre. (\<forall>L' \<in> set pre. sp2_after E h self L' = Inr False) \<and>
        (case res of
           Inr L \<Rightarrow> (\<exists>post. cands = pre @ L # post) \<and> sp2_after E h self L = Inr True \<and>
                     sp2_after E h' self L = Inr True
         | Inl e \<Rightarrow> (cands = pre \<and> e = TypeError) \<or>
                     (\<exists>L post. cands = pre @ L # post \<and> sp2_after E h self L = Inl e)))"
proof (induction cands arbitrary: h)
  case Nil
  then have "res = Inl TypeError" "h' = h" by simp_all
  with Nil.prems(1) show ?case by simp
next
  case (Cons L Ls)
  from Cons.prems(2) have L: "size_sys (h ! self) \<le> length L" "list_all (\<lambda>l. 0 \<le> l) L"
    by simp_all
  obtain r h1 where x: "extend_by_operation E h self (PTuple (map PInt L)) = (Inr r, h1)"
    and ok1: "cache_ok E h1 self"
    and same: "s_equations (h1 ! self) = s_equations (h ! self)"
      "s_parent (h1 ! self) = s_parent (h ! self)"
      "s_variables (h1 ! self) = s_variables (h ! self)"
    by (rule extend_tuple_step [OF assms Cons.prems(1) L])
  have here: "sp2_after E h self L = is_sp2 E (h1 ! r)"
    by (rule sp2_after_eq [OF x])
  have later: "sp2_after E h1 self K = sp2_after E h self K"
    if "size_sys (h ! self) \<le> length K" "list_all (\<lambda>l. 0 \<le> l) K" for K
    by (rule sp2_after_same [OF assms Cons.prems(1) ok1 same that])
  show ?case
  proof (cases "is_sp2 E (h1 ! r)")
    case (Inl e)
    with Cons.prems(3) x have "res = Inl e" "h' = h1" by simp_all
    moreover have "\<forall>L' \<in> set []. sp2_after E h self L' = Inr False" by simp
    moreover have "L # Ls = [] @ L # Ls \<and> sp2_after E h self L = Inl e"
      using here Inl by simp
    ultimately show ?thesis using ok1 same by (intro conjI exI [of _ "[]"]) auto
  next
    case (Inr b)
    show ?thesis
    proof (cases b)
      case True
      with Inr Cons.prems(3) x have "res = Inr L" "h' = h1" by simp_all
      moreover have "sp2_after E h self L = Inr True" using here Inr True by simp
      moreover then have "sp2_after E h1 self L = Inr True" using later [OF L] by simp
      ultimately show ?thesis using ok1 same by (intro conjI exI [of _ "[]"]) auto
    next
      case False
      with Inr Cons.prems(3) x have rec: "search_extension E h1 self Ls = (res, h')" by simp
      have hyp: "\<forall>K \<in> set Ls. size_sys (h1 ! self) \<le> length K \<and> list_all (\<lambda>l. 0 \<le> l) K"
        using Cons.prems(2) same(1) by (simp add: size_sys_def)
      from Cons.IH [OF ok1 hyp rec] obtain pre where
        inv: "cache_ok E h' self" "s_equations (h' ! self) = s_equations (h1 ! self)"
          "s_parent (h' ! self) = s_parent (h1 ! self)"
          "s_variables (h' ! self) = s_variables (h1 ! self)"
        and pre: "\<forall>L' \<in> set pre. sp2_after E h1 self L' = Inr False"
        and fin: "case res of
           Inr K \<Rightarrow> (\<exists>post. Ls = pre @ K # post) \<and> sp2_after E h1 self K = Inr True \<and>
                     sp2_after E h' self K = Inr True
         | Inl e \<Rightarrow> (Ls = pre \<and> e = TypeError) \<or>
                     (\<exists>K post. Ls = pre @ K # post \<and> sp2_after E h1 self K = Inl e)"
        by blast
      have sub: "set pre \<subseteq> set Ls"
        using fin by (cases res) auto
      have mem: "sp2_after E h1 self K = sp2_after E h self K" if "K \<in> set Ls" for K
        using Cons.prems(2) that by (intro later) auto
      have "sp2_after E h self K = Inr False" if "K \<in> set pre" for K
      proof -
        from that sub have "K \<in> set Ls" by blast
        from mem [OF this] pre that show ?thesis by simp
      qed
      moreover have "sp2_after E h self L = Inr False" using here Inr False by simp
      ultimately have pre': "\<forall>L' \<in> set (L # pre). sp2_after E h self L' = Inr False"
        by simp
      have fin': "case res of
           Inr K \<Rightarrow> (\<exists>post. L # Ls = (L # pre) @ K # post) \<and> sp2_after E h self K = Inr True \<and>
                     sp2_after E h' self K = Inr True
         | Inl e \<Rightarrow> (L # Ls = L # pre \<and> e = TypeError) \<or>
                     (\<exists>K post. L # Ls = (L # pre) @ K # post \<and> sp2_after E h self K = Inl e)"
      proof (cases res)
        case (Inl e)
        with fin mem show ?thesis by auto
      next
        case (Inr K)
        with fin have "K \<in> set Ls" by auto
        with Inr fin mem [of K] show ?thesis by auto
      qed
      from inv same pre' fin' show ?thesis
        by (intro conjI exI [of _ "L # pre"]) simp_all
    qed
  qed
qed

lemma search_returns:
  assumes "ring_laws E"
  shows "cache_ok E h self \<Longrightarrow>
     \<forall>K \<in> set (before @ M # rest). size_sys (h ! self) \<le> length K \<and> list_all (\<lambda>l. 0 \<le> l) K \<Longrightarrow>
     \<forall>L' \<in> set before. sp2_after E h self L' = Inr False \<Longrightarrow>
     (sp2_after E h self M = Inr True \<longrightarrow>
        fst (search_extension E h self (before @ M # rest)) = Inr M) \<and>
     (sp2_after E h self M = Inl e \<longrightarrow>
        fst (search_extension E h self (before @ M # rest)) = Inl e)"
proof (induction before arbitrary: h)
  case Nil
  from Nil.prems(2) have M: "size_sys (h ! self) \<le> length M" "list_all (\<lambda>l. 0 \<le> l) M"
    by simp_all
  obtain r h1 where x: "extend_by_operation E h self (PTuple (map PInt M)) = (Inr r, h1)"
    by (rule extend_tuple_step [OF assms Nil.prems(1) M])
  note here = sp2_after_eq [OF x]
  show ?case
  proof (cases "is_sp2 E (h1 ! r)")
    case (Inl e')
    with x here show ?thesis by simp
  next
    case (Inr b)
    with x here show ?thesis by (cases b) simp_all
  qed
next
  case (Cons P before)
  from Cons.prems(2) have P: "size_sys (h ! self) \<le> length P" "list_all (\<lambda>l. 0 \<le> l) P"
    by simp_all
  obtain r h1 where x: "extend_by_operation E h self (PTuple (map PInt P)) = (Inr r, h1)"
    and ok1: "cache_ok E h1 self"
    and same: "s_equations (h1 ! self) = s_equations (h ! self)"
      "s_parent (h1 ! self) = s_parent (h ! self)"
      "s_variables (h1 ! self) = s_variables (h ! self)"
    by (rule extend_tuple_step [OF assms Cons.prems(1) P])
  from Cons.prems(3) have "sp2_after E h self P = Inr False" by simp
  then have f: "is_sp2 E (h1 ! r) = Inr False" unfolding sp2_after_eq [OF x] .
  have step: "search_extension E h self ((P # before) @ M # rest) =
      search_extension E h1 self (before @ M # rest)"
    using x f by simp
  have later: "sp2_after E h1 self K = sp2_after E h self K"
    if "K \<in> set (before @ M # rest)" for K
  proof -
    from that Cons.prems(2) have "size_sys (h ! self) \<le> length K" "list_all (\<lambda>l. 0 \<le> l) K"
      by auto
    then show ?thesis by (rule sp2_after_same [OF assms Cons.prems(1) ok1 same])
  qed
  have hyp: "\<forall>K \<in> set (before @ M # rest).
      size_sys (h1 ! self) \<le> length K \<and> list_all (\<lambda>l. 0 \<le> l) K"
    using Cons.prems(2) same(1) by (simp add: size_sys_def)
  have pre: "\<forall>L' \<in> set before. sp2_after E h1 self L' = Inr False"
    using Cons.prems(3) later by simp
  have atM: "sp2_after E h1 self M = sp2_after E h self M"
    by (rule later) simp
  from Cons.IH [OF ok1 hyp pre] show ?case
    unfolding step atM .
qed

text \<open>
  C3. For a bound \<open>\<ge> 0\<close>, every candidate of the search has one entry for each
  equation, each entry in \<open>[-1, bound-1]\<close> (they are exactly the vectors with entries
  in \<open>[0, bound-1]\<close> when the system has an equation); the candidates come by
  increasing total weight, the first of weight zero; when the search returns \<open>L\<close>,
  \<open>L\<close> is the first candidate on which \<open>extend_by_operation(L).is_sp2()\<close> holds
  (it is false on all candidates before \<open>L\<close>), and it holds of the extension in the
  store that the search leaves; when the test is false on every candidate the search
  raises TypeError; and when the test is false on the candidates before a candidate
  \<open>M\<close>, the search returns \<open>M\<close> if the test holds of \<open>M\<close>, and raises what the test
  raises on \<open>M\<close> if it raises.
\<close>

theorem get_extension_search:
  assumes "ring_laws E" and "cache_ok E h self" and "0 \<le> bound"
  shows "(\<forall>K \<in> set (gen_cartesian (size_sys (h ! self)) bound).
            length K = size_sys (h ! self) \<and> (\<forall>c \<in> set K. - 1 \<le> c \<and> c \<le> bound - 1)) \<and>
         (0 < size_sys (h ! self) \<longrightarrow>
            (K \<in> set (gen_cartesian (size_sys (h ! self)) bound) \<longleftrightarrow>
               length K = size_sys (h ! self) \<and> (\<forall>c \<in> set K. 0 \<le> c \<and> c \<le> bound - 1))) \<and>
         sorted (map sum_list (gen_cartesian (size_sys (h ! self)) bound)) \<and>
         (gen_cartesian (size_sys (h ! self)) bound \<noteq> [] \<longrightarrow>
            sum_list (hd (gen_cartesian (size_sys (h ! self)) bound)) = 0) \<and>
         (get_extension E h self bound = (Inr L, h') \<longrightarrow>
            (\<exists>pre post. gen_cartesian (size_sys (h ! self)) bound = pre @ L # post \<and>
               (\<forall>L' \<in> set pre. sp2_after E h self L' = Inr False)) \<and>
            sp2_after E h self L = Inr True \<and> sp2_after E h' self L = Inr True) \<and>
         ((\<forall>L' \<in> set (gen_cartesian (size_sys (h ! self)) bound).
              sp2_after E h self L' = Inr False) \<longrightarrow>
            fst (get_extension E h self bound) = Inl TypeError) \<and>
         (gen_cartesian (size_sys (h ! self)) bound = before @ M # rest \<and>
          (\<forall>L' \<in> set before. sp2_after E h self L' = Inr False) \<longrightarrow>
            (sp2_after E h self M = Inr True \<longrightarrow>
               fst (get_extension E h self bound) = Inr M) \<and>
            (sp2_after E h self M = Inl e \<longrightarrow>
               fst (get_extension E h self bound) = Inl e))"
proof -
  let ?n = "size_sys (h ! self)"
  let ?cands = "gen_cartesian ?n bound"
  have rng: "\<forall>K \<in> set ?cands. length K = ?n \<and> (\<forall>c \<in> set K. - 1 \<le> c \<and> c \<le> bound - 1)"
    using gen_cartesian_sound [of _ ?n bound] by fastforce
  have exact: "0 < ?n \<longrightarrow>
      (K \<in> set ?cands \<longleftrightarrow> length K = ?n \<and> (\<forall>c \<in> set K. 0 \<le> c \<and> c \<le> bound - 1))"
  proof (intro impI iffI)
    assume "K \<in> set ?cands"
    from gen_cartesian_sound [OF this]
    show "length K = ?n \<and> (\<forall>c \<in> set K. 0 \<le> c \<and> c \<le> bound - 1)" by simp
  next
    assume n: "0 < ?n" and K: "length K = ?n \<and> (\<forall>c \<in> set K. 0 \<le> c \<and> c \<le> bound - 1)"
    then have "K \<in> set (gen_cartesian (length K) bound)"
      by (intro gen_cartesian_complete) simp_all
    with K show "K \<in> set ?cands" by simp
  qed
  have hyp: "\<forall>K \<in> set ?cands. ?n \<le> length K \<and> list_all (\<lambda>l. 0 \<le> l) K"
    using gen_cartesian_sound [of _ ?n bound] by (fastforce simp: list_all_iff)
  have run: "get_extension E h self bound = search_extension E h self ?cands"
    using assms(3) by (simp add: get_extension_def)
  have found: "get_extension E h self bound = (Inr L, h') \<longrightarrow>
            (\<exists>pre post. ?cands = pre @ L # post \<and>
               (\<forall>L' \<in> set pre. sp2_after E h self L' = Inr False)) \<and>
            sp2_after E h self L = Inr True \<and> sp2_after E h' self L = Inr True"
  proof
    assume "get_extension E h self bound = (Inr L, h')"
    then have "search_extension E h self ?cands = (Inr L, h')" unfolding run .
    from search_extension_first [OF assms(1,2) hyp this]
    show "(\<exists>pre post. ?cands = pre @ L # post \<and>
               (\<forall>L' \<in> set pre. sp2_after E h self L' = Inr False)) \<and>
            sp2_after E h self L = Inr True \<and> sp2_after E h' self L = Inr True"
      by auto
  qed
  have none: "(\<forall>L' \<in> set ?cands. sp2_after E h self L' = Inr False) \<longrightarrow>
            fst (get_extension E h self bound) = Inl TypeError"
  proof
    assume all: "\<forall>L' \<in> set ?cands. sp2_after E h self L' = Inr False"
    obtain res k where s: "search_extension E h self ?cands = (res, k)"
      by (cases "search_extension E h self ?cands")
    from search_extension_first [OF assms(1,2) hyp s] obtain pre where
      fin: "case res of
           Inr L \<Rightarrow> (\<exists>post. ?cands = pre @ L # post) \<and> sp2_after E h self L = Inr True \<and>
                     sp2_after E k self L = Inr True
         | Inl e \<Rightarrow> (?cands = pre \<and> e = TypeError) \<or>
                     (\<exists>L post. ?cands = pre @ L # post \<and> sp2_after E h self L = Inl e)"
      by blast
    have "res = Inl TypeError"
    proof (cases res)
      case (Inr M)
      with fin obtain post where "?cands = pre @ M # post" and t: "sp2_after E h self M = Inr True"
        by auto
      then have "M \<in> set ?cands" by simp
      with all t show ?thesis by simp
    next
      case (Inl e)
      show ?thesis
      proof (cases "?cands = pre \<and> e = TypeError")
        case True
        with Inl show ?thesis by simp
      next
        case False
        with Inl fin obtain M post where c: "?cands = pre @ M # post"
          and t: "sp2_after E h self M = Inl e" by auto
        from c have "M \<in> set ?cands" by simp
        with all t show ?thesis by simp
      qed
    qed
    with s show "fst (get_extension E h self bound) = Inl TypeError" unfolding run by simp
  qed
  have prod: "?cands = before @ M # rest \<and>
          (\<forall>L' \<in> set before. sp2_after E h self L' = Inr False) \<longrightarrow>
            (sp2_after E h self M = Inr True \<longrightarrow>
               fst (get_extension E h self bound) = Inr M) \<and>
            (sp2_after E h self M = Inl e \<longrightarrow>
               fst (get_extension E h self bound) = Inl e)"
  proof
    assume a: "?cands = before @ M # rest \<and>
          (\<forall>L' \<in> set before. sp2_after E h self L' = Inr False)"
    then have split: "?cands = before @ M # rest"
      and pre: "\<forall>L' \<in> set before. sp2_after E h self L' = Inr False" by blast+
    from hyp have hyp': "\<forall>K \<in> set (before @ M # rest).
        ?n \<le> length K \<and> list_all (\<lambda>l. 0 \<le> l) K"
      unfolding split .
    note S = search_returns [OF assms(1,2) hyp' pre, folded split, folded run]
    from S show "(sp2_after E h self M = Inr True \<longrightarrow>
               fst (get_extension E h self bound) = Inr M) \<and>
            (sp2_after E h self M = Inl e \<longrightarrow>
               fst (get_extension E h self bound) = Inl e)"
      by blast
  qed
  have first: "?cands \<noteq> [] \<longrightarrow> sum_list (hd ?cands) = 0"
    by (rule impI) (rule gen_cartesian_first)
  from rng exact gen_cartesian_sorted [of ?n bound] first found none prod
  show ?thesis by (intro conjI)
qed

theorem get_extension_search_witness:
  "fst (get_extension E0 [sys_uv] 0 3) = Inr [1, 2] \<and>
   sp2_after E0 [sys_uv] 0 [1, 2] = Inr True \<and>
   sp2_after E0 (snd (get_extension E0 [sys_uv] 0 3)) 0 [1, 2] = Inr True \<and>
   (\<exists>pre post. gen_cartesian 2 3 = pre @ [1, 2] # post \<and>
      (\<forall>L' \<in> set pre. sp2_after E0 [sys_uv] 0 L' = Inr False)) \<and>
   fst (get_extension E0 [sys_uv] 0 0) = Inl TypeError"
proof -
  have sz: "size_sys ([sys_uv] ! 0) = 2" by (simp add: size_sys_def sys_uv_def)
  have b3: "(0::int) \<le> 3" and b0: "(0::int) \<le> 0" by simp_all
  have cands: "gen_cartesian 2 3 =
      [[0, 0], [1, 0], [0, 1], [2, 0], [1, 1], [0, 2], [2, 1]] @ [1, 2] # [[2, 2]]"
    by code_simp
  have f: "sp2_after E0 [sys_uv] 0 [0, 0] = Inr False" "sp2_after E0 [sys_uv] 0 [1, 0] = Inr False"
    "sp2_after E0 [sys_uv] 0 [0, 1] = Inr False" "sp2_after E0 [sys_uv] 0 [2, 0] = Inr False"
    "sp2_after E0 [sys_uv] 0 [1, 1] = Inr False" "sp2_after E0 [sys_uv] 0 [0, 2] = Inr False"
    "sp2_after E0 [sys_uv] 0 [2, 1] = Inr False"
    by code_simp+
  have t: "sp2_after E0 [sys_uv] 0 [1, 2] = Inr True" by code_simp
  have pre: "gen_cartesian 2 3 =
      [[0, 0], [1, 0], [0, 1], [2, 0], [1, 1], [0, 2], [2, 1]] @ [1, 2] # [[2, 2]] \<and>
      (\<forall>L' \<in> set [[0, 0], [1, 0], [0, 1], [2, 0], [1, 1], [0, 2], [2, 1]].
          sp2_after E0 [sys_uv] 0 L' = Inr False)"
    using cands f by simp
  note T3 = get_extension_search [OF ring_laws_E0 cache_ok_sys_uv b3, unfolded sz]
  note T0 = get_extension_search [OF ring_laws_E0 cache_ok_sys_uv b0, unfolded sz]
  from T3 [where before = "[[0, 0], [1, 0], [0, 1], [2, 0], [1, 1], [0, 2], [2, 1]]"
      and M = "[1, 2]" and rest = "[[2, 2]]", THEN conjunct2, THEN conjunct2, THEN conjunct2,
      THEN conjunct2, THEN conjunct2, THEN conjunct2, THEN mp, OF pre, THEN conjunct1, THEN mp, OF t]
  have r: "fst (get_extension E0 [sys_uv] 0 3) = Inr [1, 2]" .
  then have g: "get_extension E0 [sys_uv] 0 3 = (Inr [1, 2], snd (get_extension E0 [sys_uv] 0 3))"
    by (simp add: prod_eq_iff)
  from T3 [where L = "[1, 2]" and h' = "snd (get_extension E0 [sys_uv] 0 3)",
      THEN conjunct2, THEN conjunct2, THEN conjunct2, THEN conjunct2, THEN conjunct1, THEN mp, OF g]
  have found: "(\<exists>pre post. gen_cartesian 2 3 = pre @ [1, 2] # post \<and>
      (\<forall>L' \<in> set pre. sp2_after E0 [sys_uv] 0 L' = Inr False)) \<and>
     sp2_after E0 [sys_uv] 0 [1, 2] = Inr True \<and>
     sp2_after E0 (snd (get_extension E0 [sys_uv] 0 3)) 0 [1, 2] = Inr True" .
  have e: "gen_cartesian 2 0 = []" by code_simp
  from T0 e have z: "fst (get_extension E0 [sys_uv] 0 0) = Inl TypeError" by simp
  from r found z show ?thesis by (intro conjI) blast+
qed

end
